theory Spec2Isabelle
  imports Main "HOL-Library.List_Lexorder" "HOL-Library.Char_ord"
begin

section \<open>Data model of \<^verbatim>\<open>ec2-reservations.go\<close>\<close>

text \<open>
  \<^verbatim>\<open>type reportedInfo struct { Type string; AZ string; Count int }\<close> and
  \<^verbatim>\<open>type instanceInfo struct { Type string; AZ string }\<close>.
  Both structs have fields \<open>Type\<close> and \<open>AZ\<close>; the unqualified names denote the
  fields of \<open>instanceInfo\<close>, the fields of a report row are written
  \<open>reportedInfo.Type\<close>, \<open>reportedInfo.AZ\<close>.

  Go strings are byte sequences compared bytewise, as \<open>char list\<close> is under the
  lexicographic order. Go's \<^verbatim>\<open>int\<close> is modelled by \<open>int\<close>: on counts that are
  nonnegative and representable, every value \<^verbatim>\<open>reconcile\<close> computes is
  representable (lemma \<open>reconcile_within\<close>), so nothing wraps around.
\<close>

record reportedInfo =
  Type :: string
  AZ :: string
  Count :: int

record instanceInfo =
  Type :: string
  AZ :: string

text \<open>
  \<^verbatim>\<open>map[instanceInfo]int\<close>. Reading a missing key yields the zero value, which
  is what \<^verbatim>\<open>out[k] += v\<close> relies on.
\<close>

type_synonym gomap = "instanceInfo \<rightharpoonup> int"

definition get :: "gomap \<Rightarrow> instanceInfo \<Rightarrow> int" where
  "get m k = (case m k of None \<Rightarrow> 0 | Some v \<Rightarrow> v)"

text \<open>
  \<^verbatim>\<open>for k, v := range m\<close> visits every key of \<open>m\<close> once, in an order the language
  leaves unspecified. A loop of the model takes the order of its visits as a list;
  \<open>ranges ks m\<close> says that \<open>ks\<close> is one of the orders \<^verbatim>\<open>range m\<close> may take.
\<close>

definition ranges :: "instanceInfo list \<Rightarrow> gomap \<Rightarrow> bool" where
  "ranges ks m \<longleftrightarrow> distinct ks \<and> set ks = dom m"

section \<open>\<^verbatim>\<open>reconcile\<close>\<close>

text \<open>
  The state of one call: the three argument maps and the local \<^verbatim>\<open>out\<close>. The three
  arguments are separate map objects, as they are at the call in \<^verbatim>\<open>do\<close>.
\<close>

record rstate =
  runningInstances :: gomap
  azReservations :: gomap
  regionReservations :: gomap
  out :: gomap

text \<open>\<^verbatim>\<open>for k, v := range runningInstances { out[k] = -v }\<close>\<close>

definition seed :: "instanceInfo \<Rightarrow> rstate \<Rightarrow> rstate" where
  "seed k s = (let v = get (runningInstances s) k in s\<lparr>out := (out s)(k \<mapsto> - v)\<rparr>)"

text \<open>\<^verbatim>\<open>for k, v := range azReservations { out[k] += v }\<close>\<close>

definition cover :: "instanceInfo \<Rightarrow> rstate \<Rightarrow> rstate" where
  "cover k s = (let v = get (azReservations s) k in s\<lparr>out := (out s)(k \<mapsto> get (out s) k + v)\<rparr>)"

text \<open>
  The body of \<^verbatim>\<open>for k, v := range out\<close> (lines 146 to 165): \<open>v\<close> is the value
  \<^verbatim>\<open>out\<close> holds at \<open>k\<close> when the loop reaches \<open>k\<close>.
\<close>

definition borrow :: "instanceInfo \<Rightarrow> rstate \<Rightarrow> rstate" where
  "borrow k s =
     (let v = get (out s) k in
      if v \<ge> 0 then s
      else
        let k2 = \<lparr>Type = Type k, AZ = ''''\<rparr> in
        case regionReservations s k2 of
          None \<Rightarrow> s
        | Some v2 \<Rightarrow>
            let need = - v; have = v2 in
            if need \<ge> have
            then s\<lparr>out := (out s)(k \<mapsto> v + v2),
                   regionReservations := (regionReservations s)(k2 := None)\<rparr>
            else
              let n = have - need in
              s\<lparr>out := (out s)(k \<mapsto> v + n),
                regionReservations := (regionReservations s)(k2 \<mapsto> v2 - n)\<rparr>)"

text \<open>\<^verbatim>\<open>for k, v := range regionReservations { out[k] = v }\<close>\<close>

definition flush :: "instanceInfo \<Rightarrow> rstate \<Rightarrow> rstate" where
  "flush k s = (let v = get (regionReservations s) k in s\<lparr>out := (out s)(k \<mapsto> v)\<rparr>)"

text \<open>The state at the entry of the function, and after each of its four loops.\<close>

definition enter :: "gomap \<Rightarrow> gomap \<Rightarrow> gomap \<Rightarrow> rstate" where
  "enter running az region =
     \<lparr>runningInstances = running, azReservations = az,
      regionReservations = region, out = Map.empty\<rparr>"

definition seeded :: "instanceInfo list \<Rightarrow> gomap \<Rightarrow> gomap \<Rightarrow> gomap \<Rightarrow> rstate" where
  "seeded ks1 running az region = fold seed ks1 (enter running az region)"

definition covered ::
  "instanceInfo list \<Rightarrow> instanceInfo list \<Rightarrow> gomap \<Rightarrow> gomap \<Rightarrow> gomap \<Rightarrow> rstate" where
  "covered ks1 ks2 running az region = fold cover ks2 (seeded ks1 running az region)"

definition borrowed ::
  "instanceInfo list \<Rightarrow> instanceInfo list \<Rightarrow> instanceInfo list \<Rightarrow>
   gomap \<Rightarrow> gomap \<Rightarrow> gomap \<Rightarrow> rstate" where
  "borrowed ks1 ks2 ks3 running az region =
     fold borrow ks3 (covered ks1 ks2 running az region)"

definition reconcile_state ::
  "instanceInfo list \<Rightarrow> instanceInfo list \<Rightarrow> instanceInfo list \<Rightarrow> instanceInfo list \<Rightarrow>
   gomap \<Rightarrow> gomap \<Rightarrow> gomap \<Rightarrow> rstate" where
  "reconcile_state ks1 ks2 ks3 ks4 running az region =
     fold flush ks4 (borrowed ks1 ks2 ks3 running az region)"

text \<open>The returned map.\<close>

definition reconcile ::
  "instanceInfo list \<Rightarrow> instanceInfo list \<Rightarrow> instanceInfo list \<Rightarrow> instanceInfo list \<Rightarrow>
   gomap \<Rightarrow> gomap \<Rightarrow> gomap \<Rightarrow> gomap" where
  "reconcile ks1 ks2 ks3 ks4 running az region =
     out (reconcile_state ks1 ks2 ks3 ks4 running az region)"

text \<open>
  The four lists are orders the four \<^verbatim>\<open>range\<close> loops of one call may take: each
  enumerates the keys of the map its loop ranges over, as that map is when the loop
  starts.
\<close>

definition orders ::
  "instanceInfo list \<Rightarrow> instanceInfo list \<Rightarrow> instanceInfo list \<Rightarrow> instanceInfo list \<Rightarrow>
   gomap \<Rightarrow> gomap \<Rightarrow> gomap \<Rightarrow> bool" where
  "orders ks1 ks2 ks3 ks4 running az region \<longleftrightarrow>
     ranges ks1 running \<and> ranges ks2 az \<and>
     ranges ks3 (out (covered ks1 ks2 running az region)) \<and>
     ranges ks4 (regionReservations (borrowed ks1 ks2 ks3 running az region))"

section \<open>Measures of a count mapping\<close>

text \<open>
  The sum of all counts of a mapping, the sum of the magnitudes of its negative entries
  (instances without a reservation) and the sum of its positive entries (reservations
  without an instance).
\<close>

definition total :: "gomap \<Rightarrow> int" where
  "total m = (\<Sum>k\<in>dom m. the (m k))"

definition uncovered :: "gomap \<Rightarrow> int" where
  "uncovered m = (\<Sum>k\<in>{k \<in> dom m. the (m k) < 0}. - the (m k))"

definition unused :: "gomap \<Rightarrow> int" where
  "unused m = (\<Sum>k\<in>{k \<in> dom m. 0 < the (m k)}. the (m k))"

text \<open>
  The data model of the inputs: running instances and zone-scoped reservations are
  keyed with a zone, region-scoped reservations with the empty zone; counts are not
  negative.
\<close>

definition zoned :: "gomap \<Rightarrow> gomap \<Rightarrow> gomap \<Rightarrow> bool" where
  "zoned running az region \<longleftrightarrow>
     (\<forall>k\<in>dom running. AZ k \<noteq> '''') \<and> (\<forall>k\<in>dom az. AZ k \<noteq> '''') \<and>
     (\<forall>k\<in>dom region. AZ k = '''')"

definition nonneg :: "gomap \<Rightarrow> bool" where
  "nonneg m \<longleftrightarrow> (\<forall>k\<in>dom m. 0 \<le> the (m k))"

text \<open>All values of a mapping, and the zero read at a missing key, lie between \<open>- M\<close> and \<open>M\<close>.\<close>

definition within :: "int \<Rightarrow> gomap \<Rightarrow> bool" where
  "within M m \<longleftrightarrow> (\<forall>k. - M \<le> get m k \<and> get m k \<le> M)"

section \<open>The report: \<^verbatim>\<open>do\<close> and \<^verbatim>\<open>main\<close>\<close>

text \<open>
  The errors \<^verbatim>\<open>do\<close> returns: one handed over by the AWS SDK or by the writer,
  or \<^verbatim>\<open>fmt.Errorf("unknown reservation scope: %q", *r.Scope)\<close>.
\<close>

datatype error = External string | UnknownScope string

text \<open>
  A step either completes, returns an error, or panics on a nil pointer: the SDK's
  structs hold every field behind a pointer, and the code dereferences them
  unchecked.
\<close>

datatype 'a result = Done 'a | Failed error | Panic

text \<open>The fields the code reads of the SDK's structs; \<open>None\<close> is a nil pointer.\<close>

record ec2_ReservedInstances =
  Scope :: "string option"
  InstanceType :: "string option"
  InstanceCount :: "int option"
  AvailabilityZone :: "string option"

record ec2_Placement =
  AvailabilityZone :: "string option"

record ec2_Instance =
  InstanceType :: "string option"
  Placement :: "ec2_Placement option"

record ec2_Reservation =
  Instances :: "ec2_Instance list"

text \<open>Lines 46 to 51: \<^verbatim>\<open>runningInstances[ii] += 1\<close> for every instance.\<close>

fun count_instances :: "ec2_Instance list \<Rightarrow> gomap \<Rightarrow> gomap result" where
  "count_instances [] m = Done m"
| "count_instances (inst # insts) m =
     (case ec2_Instance.InstanceType inst of
        None \<Rightarrow> Panic
      | Some t \<Rightarrow>
          (case Placement inst of
             None \<Rightarrow> Panic
           | Some p \<Rightarrow>
               (case ec2_Placement.AvailabilityZone p of
                  None \<Rightarrow> Panic
                | Some z \<Rightarrow>
                    let ii = \<lparr>Type = t, AZ = z\<rparr>
                    in count_instances insts (m(ii \<mapsto> get m ii + 1)))))"

fun count_reservations :: "ec2_Reservation list \<Rightarrow> gomap \<Rightarrow> gomap result" where
  "count_reservations [] m = Done m"
| "count_reservations (r # rs) m =
     (case count_instances (Instances r) m of
        Done m' \<Rightarrow> count_reservations rs m'
      | Failed e \<Rightarrow> Failed e
      | Panic \<Rightarrow> Panic)"

text \<open>
  Lines 71 to 82, on the pair \<open>(azReservations, regionReservations)\<close>: the switch on
  \<^verbatim>\<open>*r.Scope\<close>, whose default case returns the error.
\<close>

fun scan_reserved ::
  "ec2_ReservedInstances list \<Rightarrow> gomap \<times> gomap \<Rightarrow> (gomap \<times> gomap) result" where
  "scan_reserved [] (az, region) = Done (az, region)"
| "scan_reserved (r # rs) (az, region) =
     (case Scope r of
        None \<Rightarrow> Panic
      | Some sc \<Rightarrow>
          if sc = ''Region'' then
            (case ec2_ReservedInstances.InstanceType r of
               None \<Rightarrow> Panic
             | Some t \<Rightarrow>
                 let ii = \<lparr>Type = t, AZ = ''''\<rparr> in
                 (case InstanceCount r of
                    None \<Rightarrow> Panic
                  | Some c \<Rightarrow> scan_reserved rs (az, region(ii \<mapsto> get region ii + c))))
          else if sc = ''Availability Zone'' then
            (case ec2_ReservedInstances.InstanceType r of
               None \<Rightarrow> Panic
             | Some t \<Rightarrow>
                 (case ec2_ReservedInstances.AvailabilityZone r of
                    None \<Rightarrow> Panic
                  | Some z \<Rightarrow>
                      let ii = \<lparr>Type = t, AZ = z\<rparr> in
                      (case InstanceCount r of
                         None \<Rightarrow> Panic
                       | Some c \<Rightarrow> scan_reserved rs (az(ii \<mapsto> get az ii + c), region))))
          else Failed (UnknownScope sc))"

text \<open>
  Lines 83 to 94: the two report slices, appended to in the order \<open>ks\<close> in which the
  loop ranges over the result of \<^verbatim>\<open>reconcile\<close>. The switch has no case for zero.
\<close>

definition report :: "gomap \<Rightarrow> instanceInfo \<Rightarrow>
    reportedInfo list \<times> reportedInfo list \<Rightarrow> reportedInfo list \<times> reportedInfo list" where
  "report res k = (\<lambda>(onDemandInstances, unusedReservations).
     let v = get res k in
     if v < 0 then
       (onDemandInstances @ [\<lparr>reportedInfo.Type = Type k, AZ = AZ k, Count = - v\<rparr>],
        unusedReservations)
     else if v > 0 then
       (onDemandInstances,
        unusedReservations @ [\<lparr>reportedInfo.Type = Type k, AZ = '''', Count = v\<rparr>])
     else (onDemandInstances, unusedReservations))"

definition reports :: "instanceInfo list \<Rightarrow> gomap \<Rightarrow> reportedInfo list \<times> reportedInfo list" where
  "reports ks res = fold (report res) ks ([], [])"

text \<open>
  \<^verbatim>\<open>sort.SliceStable(x, less)\<close> of the Go library, by its contract: a sort by
  \<open>lt\<close> (the argument \<^verbatim>\<open>less\<close>) that keeps elements neither of which is less than the other in their
  order. Insertion puts an element before the first one that is not less than it.
\<close>

fun insert_stable :: "('a \<Rightarrow> 'a \<Rightarrow> bool) \<Rightarrow> 'a \<Rightarrow> 'a list \<Rightarrow> 'a list" where
  "insert_stable lt x [] = [x]"
| "insert_stable lt x (y # ys) =
     (if lt y x then y # insert_stable lt x ys else x # y # ys)"

definition sliceStable :: "('a \<Rightarrow> 'a \<Rightarrow> bool) \<Rightarrow> 'a list \<Rightarrow> 'a list" where
  "sliceStable lt xs = foldr (insert_stable lt) xs []"

text \<open>The closure passed to both sorts: \<^verbatim>\<open>x[i].Type < x[j].Type\<close>.\<close>

definition by_type :: "reportedInfo \<Rightarrow> reportedInfo \<Rightarrow> bool" where
  "by_type a b \<longleftrightarrow> reportedInfo.Type a < reportedInfo.Type b"

text \<open>Lines 83 to 98: the two slices as they are after both sorts.\<close>

definition sorted_reports ::
  "instanceInfo list \<Rightarrow> gomap \<Rightarrow> reportedInfo list \<times> reportedInfo list" where
  "sorted_reports ks res =
     (let (onDemandInstances, unusedReservations) = reports ks res;
          onDemandInstances = sliceStable by_type onDemandInstances;
          unusedReservations = sliceStable by_type unusedReservations
      in (onDemandInstances, unusedReservations))"

text \<open>\<^verbatim>\<open>%d\<close>: a decimal numeral, with a minus sign for a negative number.\<close>

fun digits :: "nat \<Rightarrow> string" where
  "digits n =
     (if n < 10 then [char_of (48 + n)]
      else digits (n div 10) @ [char_of (48 + n mod 10)])"

definition itoa :: "int \<Rightarrow> string" where
  "itoa i = (if i < 0 then CHR ''-'' # digits (nat (- i)) else digits (nat i))"

text \<open>
  Lines 99 to 111. The model keeps what is written to the tabwriter \<^verbatim>\<open>tw\<close>, one
  string for each call of \<^verbatim>\<open>Fprintln\<close> or \<^verbatim>\<open>Fprintf\<close>, in order; the tabwriter
  pads the cells that end in a tab to columns and passes the lines on to \<^verbatim>\<open>w\<close>.
  The two formats are \<^verbatim>\<open>"%s\t%d\t%s\n"\<close> and \<^verbatim>\<open>"%s\t%d\n"\<close>.
\<close>

definition fprintln :: "string \<Rightarrow> string list \<Rightarrow> string list" where
  "fprintln s tw = tw @ [s @ [CHR 0x0A]]"

definition line_on_demand :: "reportedInfo \<Rightarrow> string" where
  "line_on_demand v =
     reportedInfo.Type v @ [CHR 0x09] @ itoa (Count v) @ [CHR 0x09] @
     reportedInfo.AZ v @ [CHR 0x0A]"

definition line_unused :: "reportedInfo \<Rightarrow> string" where
  "line_unused v = reportedInfo.Type v @ [CHR 0x09] @ itoa (Count v) @ [CHR 0x0A]"

definition fprintf :: "(reportedInfo \<Rightarrow> string) \<Rightarrow> reportedInfo \<Rightarrow> string list \<Rightarrow> string list" where
  "fprintf format v tw = tw @ [format v]"

definition render :: "reportedInfo list \<Rightarrow> reportedInfo list \<Rightarrow> string list" where
  "render onDemandInstances unusedReservations =
     (let tw = [];
          tw = (if length onDemandInstances > 0
                then fprintln ''On-demand EC2 instances:'' tw else tw);
          tw = fold (fprintf line_on_demand) onDemandInstances tw;
          tw = (if length unusedReservations > 0
                then fprintln ''Unused reservations:'' tw else tw);
          tw = fold (fprintf line_unused) unusedReservations tw
      in tw)"

text \<open>
  What \<^verbatim>\<open>do\<close> is given by its collaborators: the results of the three SDK calls
  and of \<^verbatim>\<open>tw.Flush()\<close>, and the orders of the five \<^verbatim>\<open>range\<close> loops over maps
  (four in \<^verbatim>\<open>reconcile\<close>, one over its result).
\<close>

record env =
  newSession :: "error option"
  describeInstances :: "error + ec2_Reservation list"
  describeReservedInstances :: "error + ec2_ReservedInstances list"
  range_running :: "instanceInfo list"
  range_az :: "instanceInfo list"
  range_out :: "instanceInfo list"
  range_region :: "instanceInfo list"
  range_result :: "instanceInfo list"
  flushed :: "error option"

text \<open>
  What a run of \<^verbatim>\<open>do\<close> leaves: the strings written to the tabwriter, how often
  \<^verbatim>\<open>reconcile\<close> was called, and how \<^verbatim>\<open>do\<close> ended.
\<close>

record run =
  written :: "string list"
  reconciled :: nat
  returned :: "unit result"

definition do :: "env \<Rightarrow> run" where
  "do e =
     (case newSession e of
        Some err \<Rightarrow> \<lparr>written = [], reconciled = 0, returned = Failed err\<rparr>
      | None \<Rightarrow>
     (case describeInstances e of
        Inl err \<Rightarrow> \<lparr>written = [], reconciled = 0, returned = Failed err\<rparr>
      | Inr resp \<Rightarrow>
     (case count_reservations resp Map.empty of
        Panic \<Rightarrow> \<lparr>written = [], reconciled = 0, returned = Panic\<rparr>
      | Failed err \<Rightarrow> \<lparr>written = [], reconciled = 0, returned = Failed err\<rparr>
      | Done running \<Rightarrow>
     (case describeReservedInstances e of
        Inl err \<Rightarrow> \<lparr>written = [], reconciled = 0, returned = Failed err\<rparr>
      | Inr ris \<Rightarrow>
     (case scan_reserved ris (Map.empty, Map.empty) of
        Panic \<Rightarrow> \<lparr>written = [], reconciled = 0, returned = Panic\<rparr>
      | Failed err \<Rightarrow> \<lparr>written = [], reconciled = 0, returned = Failed err\<rparr>
      | Done (az, region) \<Rightarrow>
          let res = reconcile (range_running e) (range_az e) (range_out e) (range_region e)
                      running az region;
              (onDemandInstances, unusedReservations) = sorted_reports (range_result e) res
          in \<lparr>written = render onDemandInstances unusedReservations, reconciled = 1,
              returned = (case flushed e of None \<Rightarrow> Done () | Some err \<Rightarrow> Failed err)\<rparr>)))))"

text \<open>
  \<^verbatim>\<open>main\<close>: the error printed to the standard error stream, and the exit status
  (1 after \<^verbatim>\<open>os.Exit(1)\<close>, 2 when the Go runtime ends the process on a panic).
\<close>

record exit =
  printed :: "error option"
  status :: nat

definition main :: "env \<Rightarrow> exit" where
  "main e =
     (case returned (do e) of
        Done u \<Rightarrow> \<lparr>printed = None, status = 0\<rparr>
      | Failed err \<Rightarrow> \<lparr>printed = Some err, status = 1\<rparr>
      | Panic \<Rightarrow> \<lparr>printed = None, status = 2\<rparr>)"

text \<open>
  A record whose fields are all set, as far as the code reads them, and one whose
  scope is one of the two the switch knows.
\<close>

definition populated_instance :: "ec2_Instance \<Rightarrow> bool" where
  "populated_instance inst \<longleftrightarrow>
     ec2_Instance.InstanceType inst \<noteq> None \<and>
     (case Placement inst of None \<Rightarrow> False
      | Some p \<Rightarrow> ec2_Placement.AvailabilityZone p \<noteq> None)"

definition known_scope :: "ec2_ReservedInstances \<Rightarrow> bool" where
  "known_scope r \<longleftrightarrow> Scope r = Some ''Region'' \<or> Scope r = Some ''Availability Zone''"

definition populated_reserved :: "ec2_ReservedInstances \<Rightarrow> bool" where
  "populated_reserved r \<longleftrightarrow>
     Scope r \<noteq> None \<and> ec2_ReservedInstances.InstanceType r \<noteq> None \<and>
     InstanceCount r \<noteq> None \<and>
     (Scope r = Some ''Availability Zone'' \<longrightarrow> ec2_ReservedInstances.AvailabilityZone r \<noteq> None)"

section \<open>Inputs of the examples\<close>

definition m3_medium_1a :: instanceInfo where
  "m3_medium_1a = \<lparr>Type = ''m3.medium'', AZ = ''us-east-1a''\<rparr>"

definition m3_medium_region :: instanceInfo where
  "m3_medium_region = \<lparr>Type = ''m3.medium'', AZ = ''''\<rparr>"

definition c5_large_1b :: instanceInfo where
  "c5_large_1b = \<lparr>Type = ''c5.large'', AZ = ''us-east-1b''\<rparr>"

definition c5_large_region :: instanceInfo where
  "c5_large_region = \<lparr>Type = ''c5.large'', AZ = ''''\<rparr>"

definition m3_large_1a :: instanceInfo where
  "m3_large_1a = \<lparr>Type = ''m3.large'', AZ = ''us-east-1a''\<rparr>"

definition c5_xlarge_1a :: instanceInfo where
  "c5_xlarge_1a = \<lparr>Type = ''c5.xlarge'', AZ = ''us-east-1a''\<rparr>"

text \<open>A run whose second reservation record has the scope \<open>Custom\<close>.\<close>

definition custom_env :: env where
  "custom_env =
     \<lparr>newSession = None,
      describeInstances = Inr [\<lparr>Instances =
        [\<lparr>ec2_Instance.InstanceType = Some ''m3.medium'',
          Placement = Some \<lparr>ec2_Placement.AvailabilityZone = Some ''us-east-1a''\<rparr>\<rparr>]\<rparr>],
      describeReservedInstances = Inr
        [\<lparr>Scope = Some ''Region'', ec2_ReservedInstances.InstanceType = Some ''m3.medium'',
          InstanceCount = Some 2, ec2_ReservedInstances.AvailabilityZone = None\<rparr>,
         \<lparr>Scope = Some ''Custom'', ec2_ReservedInstances.InstanceType = Some ''m3.medium'',
          InstanceCount = Some 1, ec2_ReservedInstances.AvailabilityZone = None\<rparr>],
      range_running = [], range_az = [], range_out = [], range_region = [],
      range_result = [], flushed = None\<rparr>"

section \<open>The loops of \<^verbatim>\<open>reconcile\<close>\<close>

subsection \<open>What each loop reads and writes\<close>

lemma seed_fields [simp]:
  "runningInstances (seed k s) = runningInstances s"
  "azReservations (seed k s) = azReservations s"
  "regionReservations (seed k s) = regionReservations s"
  "out (seed k s) = (out s)(k \<mapsto> - get (runningInstances s) k)"
  by (simp_all add: seed_def)

lemma cover_fields [simp]:
  "runningInstances (cover k s) = runningInstances s"
  "azReservations (cover k s) = azReservations s"
  "regionReservations (cover k s) = regionReservations s"
  "out (cover k s) = (out s)(k \<mapsto> get (out s) k + get (azReservations s) k)"
  by (simp_all add: cover_def)

lemma flush_fields [simp]:
  "runningInstances (flush k s) = runningInstances s"
  "azReservations (flush k s) = azReservations s"
  "regionReservations (flush k s) = regionReservations s"
  "out (flush k s) = (out s)(k \<mapsto> get (regionReservations s) k)"
  by (simp_all add: flush_def)

lemma borrow_frame [simp]:
  "runningInstances (borrow k s) = runningInstances s"
  "azReservations (borrow k s) = azReservations s"
  by (simp_all add: borrow_def Let_def split: option.splits)

lemma fold_seed_frame [simp]:
  "runningInstances (fold seed ks s) = runningInstances s"
  "azReservations (fold seed ks s) = azReservations s"
  "regionReservations (fold seed ks s) = regionReservations s"
  by (induction ks arbitrary: s; simp)+

lemma fold_cover_frame [simp]:
  "runningInstances (fold cover ks s) = runningInstances s"
  "azReservations (fold cover ks s) = azReservations s"
  "regionReservations (fold cover ks s) = regionReservations s"
  by (induction ks arbitrary: s; simp)+

lemma fold_flush_frame [simp]:
  "runningInstances (fold flush ks s) = runningInstances s"
  "azReservations (fold flush ks s) = azReservations s"
  "regionReservations (fold flush ks s) = regionReservations s"
  by (induction ks arbitrary: s; simp)+

lemma fold_borrow_frame [simp]:
  "runningInstances (fold borrow ks s) = runningInstances s"
  "azReservations (fold borrow ks s) = azReservations s"
  by (induction ks arbitrary: s; simp)+

lemma out_fold_seed:
  "out (fold seed ks s) =
     (\<lambda>k. if k \<in> set ks then Some (- get (runningInstances s) k) else out s k)"
  by (induction ks arbitrary: s) (auto simp: fun_eq_iff)

lemma get_upd [simp]: "get (m(k \<mapsto> v)) k' = (if k' = k then v else get m k')"
  by (simp add: get_def)

lemma out_fold_cover:
  "distinct ks \<Longrightarrow> out (fold cover ks s) =
     (\<lambda>k. if k \<in> set ks then Some (get (out s) k + get (azReservations s) k) else out s k)"
  by (induction ks arbitrary: s) (auto simp: fun_eq_iff)

lemma out_fold_flush:
  "out (fold flush ks s) =
     (\<lambda>k. if k \<in> set ks then Some (get (regionReservations s) k) else out s k)"
  by (induction ks arbitrary: s) (auto simp: fun_eq_iff)

lemma borrow_noop: "0 \<le> get (out s) k \<Longrightarrow> borrow k s = s"
  by (simp add: borrow_def)

lemma borrow_out_other: "k' \<noteq> k \<Longrightarrow> out (borrow k s) k' = out s k'"
  by (simp add: borrow_def Let_def split: option.splits)

lemma borrow_dom_out: "k \<in> dom (out s) \<Longrightarrow> dom (out (borrow k s)) = dom (out s)"
  by (auto simp add: borrow_def Let_def split: option.splits if_splits)

lemma borrow_dom_region: "dom (regionReservations (borrow k s)) \<subseteq> dom (regionReservations s)"
  by (auto simp add: borrow_def Let_def split: option.splits if_splits)

lemma fold_borrow_out_other: "k \<notin> set ks \<Longrightarrow> out (fold borrow ks s) k = out s k"
  by (induction ks arbitrary: s) (auto simp: borrow_out_other)

lemma fold_borrow_dom_out:
  "set ks \<subseteq> dom (out s) \<Longrightarrow> dom (out (fold borrow ks s)) = dom (out s)"
  by (induction ks arbitrary: s) (simp_all add: borrow_dom_out)

lemma fold_borrow_dom_region:
  "dom (regionReservations (fold borrow ks s)) \<subseteq> dom (regionReservations s)"
proof (induction ks arbitrary: s)
  case Nil
  show ?case by simp
next
  case (Cons k ks)
  have "dom (regionReservations (fold borrow ks (borrow k s))) \<subseteq> dom (regionReservations (borrow k s))"
    by (rule Cons.IH)
  also have "\<dots> \<subseteq> dom (regionReservations s)" by (rule borrow_dom_region)
  finally show ?case by simp
qed

subsection \<open>Sums over a mapping\<close>

lemma get_dom: "k \<in> dom m \<Longrightarrow> get m k = the (m k)"
  by (auto simp: get_def)

lemma get_notin: "k \<notin> dom m \<Longrightarrow> get m k = 0"
  by (auto simp: get_def dom_def)

lemma total_get: "total m = (\<Sum>k\<in>dom m. get m k)"
  unfolding total_def by (rule sum.cong) (simp_all add: get_dom)

lemma total_superset:
  assumes "finite A" "dom m \<subseteq> A"
  shows "total m = (\<Sum>k\<in>A. get m k)"
proof -
  have "(\<Sum>k\<in>dom m. get m k) = (\<Sum>k\<in>A. get m k)"
    using assms by (intro sum.mono_neutral_left) (auto simp: get_notin)
  then show ?thesis by (simp add: total_get)
qed

lemma total_upd:
  assumes "finite (dom m)"
  shows "total (m(k \<mapsto> v)) = total m - get m k + v"
proof -
  let ?A = "insert k (dom m)"
  have fin: "finite ?A" using assms by simp
  have "total (m(k \<mapsto> v)) = (\<Sum>x\<in>?A. get (m(k \<mapsto> v)) x)"
    by (rule total_superset[OF fin]) auto
  also have "\<dots> = v + (\<Sum>x\<in>?A - {k}. get m x)"
    using fin by (subst sum.remove[of _ k]) (auto intro!: sum.cong)
  finally have 1: "total (m(k \<mapsto> v)) = v + (\<Sum>x\<in>?A - {k}. get m x)" .
  have "total m = (\<Sum>x\<in>?A. get m x)"
    by (rule total_superset[OF fin]) auto
  also have "\<dots> = get m k + (\<Sum>x\<in>?A - {k}. get m x)"
    using fin by (subst sum.remove[of _ k]) auto
  finally show ?thesis using 1 by simp
qed

lemma total_del:
  assumes "finite (dom m)"
  shows "total (m(k := None)) = total m - get m k"
proof -
  have fin: "finite (dom m)" by fact
  have "total (m(k := None)) = (\<Sum>x\<in>dom m. get (m(k := None)) x)"
    by (rule total_superset[OF fin]) auto
  also have "\<dots> = (\<Sum>x\<in>dom m. get m x) - get m k"
  proof (cases "k \<in> dom m")
    case True
    have "(\<Sum>x\<in>dom m. get (m(k := None)) x) =
          get (m(k := None)) k + (\<Sum>x\<in>dom m - {k}. get (m(k := None)) x)"
      using fin True by (rule sum.remove)
    also have "\<dots> = (\<Sum>x\<in>dom m - {k}. get m x)"
      by (simp add: get_def)
    also have "\<dots> = (\<Sum>x\<in>dom m. get m x) - get m k"
      using sum.remove[OF fin True, of "get m"] by simp
    finally show ?thesis .
  next
    case False
    then have "m(k := None) = m" by (auto simp: fun_eq_iff)
    then show ?thesis using False by (simp add: get_notin)
  qed
  finally show ?thesis by (simp add: total_get)
qed

lemma sign_split:
  assumes "finite (dom m)"
  shows "uncovered m - unused m = - total m"
proof -
  have fin: "finite (dom m)" by fact
  have u: "uncovered m = (\<Sum>k\<in>dom m. if the (m k) < 0 then - the (m k) else 0)"
    unfolding uncovered_def by (rule sum.inter_filter[OF fin])
  have p: "unused m = (\<Sum>k\<in>dom m. if 0 < the (m k) then the (m k) else 0)"
    unfolding unused_def by (rule sum.inter_filter[OF fin])
  have "uncovered m - unused m =
        (\<Sum>k\<in>dom m. (if the (m k) < 0 then - the (m k) else 0) -
                     (if 0 < the (m k) then the (m k) else 0))"
    by (simp add: u p sum_subtractf)
  also have "\<dots> = (\<Sum>k\<in>dom m. - the (m k))"
    by (rule sum.cong) auto
  finally show ?thesis by (simp add: total_def sum_negf)
qed

subsection \<open>The state after each loop\<close>

lemma borrow_finite:
  "finite (dom (out s)) \<Longrightarrow> finite (dom (out (borrow k s)))"
  "finite (dom (regionReservations s)) \<Longrightarrow> finite (dom (regionReservations (borrow k s)))"
  by (auto simp: borrow_def Let_def split: option.splits)

lemma fold_borrow_finite:
  "finite (dom (out s)) \<Longrightarrow> finite (dom (out (fold borrow ks s)))"
  "finite (dom (regionReservations s)) \<Longrightarrow> finite (dom (regionReservations (fold borrow ks s)))"
  by (induction ks arbitrary: s; simp add: borrow_finite)+

lemma borrow_total:
  assumes "finite (dom (out s))" "finite (dom (regionReservations s))"
  shows "total (out (borrow k s)) + total (regionReservations (borrow k s)) =
         total (out s) + total (regionReservations s)"
proof (cases "0 \<le> get (out s) k")
  case True
  then show ?thesis by (simp add: borrow_noop)
next
  case neg: False
  let ?k2 = "\<lparr>Type = Type k, AZ = ''''\<rparr>"
  show ?thesis
  proof (cases "regionReservations s ?k2")
    case None
    then show ?thesis using neg by (simp add: borrow_def)
  next
    case (Some v2)
    then have g: "get (regionReservations s) ?k2 = v2" by (simp add: get_def)
    show ?thesis
      using neg Some assms g
      by (simp add: borrow_def Let_def total_upd total_del)
  qed
qed

lemma fold_borrow_total:
  assumes "finite (dom (out s))" "finite (dom (regionReservations s))"
  shows "total (out (fold borrow ks s)) + total (regionReservations (fold borrow ks s)) =
         total (out s) + total (regionReservations s)"
  using assms
proof (induction ks arbitrary: s)
  case Nil
  show ?case by simp
next
  case (Cons k ks)
  have "total (out (fold borrow ks (borrow k s))) +
        total (regionReservations (fold borrow ks (borrow k s))) =
        total (out (borrow k s)) + total (regionReservations (borrow k s))"
    using Cons.prems by (intro Cons.IH borrow_finite)
  then show ?case using Cons.prems by (simp add: borrow_total)
qed

lemma out_seeded:
  "ranges ks1 running \<Longrightarrow>
   out (seeded ks1 running az region) =
     (\<lambda>k. if k \<in> dom running then Some (- get running k) else None)"
  by (auto simp: seeded_def enter_def out_fold_seed ranges_def fun_eq_iff)

lemma out_covered:
  assumes "ranges ks1 running" "ranges ks2 az"
  shows "out (covered ks1 ks2 running az region) =
     (\<lambda>k. if k \<in> dom running \<union> dom az then Some (get az k - get running k) else None)"
proof -
  have az: "azReservations (seeded ks1 running az region) = az"
    by (simp add: seeded_def enter_def)
  have d: "distinct ks2" "set ks2 = dom az" using assms(2) by (simp_all add: ranges_def)
  show ?thesis
    unfolding covered_def out_fold_cover[OF d(1)] az out_seeded[OF assms(1)] d(2)
    by (auto simp: fun_eq_iff get_def dom_def)
qed

lemma region_covered [simp]:
  "regionReservations (covered ks1 ks2 running az region) = region"
  by (simp add: covered_def seeded_def enter_def)

lemma dom_out_covered:
  "ranges ks1 running \<Longrightarrow> ranges ks2 az \<Longrightarrow>
   dom (out (covered ks1 ks2 running az region)) = dom running \<union> dom az"
  by (auto simp: out_covered dom_def)

lemma get_out_covered:
  "ranges ks1 running \<Longrightarrow> ranges ks2 az \<Longrightarrow>
   get (out (covered ks1 ks2 running az region)) k = get az k - get running k"
  by (auto simp: out_covered get_def dom_def)

lemma ranges_finite: "ranges ks m \<Longrightarrow> finite (dom m)"
  by (metis List.finite_set ranges_def)

lemma total_covered:
  assumes "ranges ks1 running" "ranges ks2 az"
  shows "total (out (covered ks1 ks2 running az region)) = total az - total running"
proof -
  let ?A = "dom running \<union> dom az"
  have fin: "finite ?A" using assms by (simp add: ranges_finite)
  have "total (out (covered ks1 ks2 running az region)) =
        (\<Sum>k\<in>?A. get (out (covered ks1 ks2 running az region)) k)"
    by (rule total_superset[OF fin]) (simp add: dom_out_covered[OF assms])
  also have "\<dots> = (\<Sum>k\<in>?A. get az k) - (\<Sum>k\<in>?A. get running k)"
    by (simp add: get_out_covered[OF assms] sum_subtractf)
  also have "(\<Sum>k\<in>?A. get az k) = total az"
    by (rule total_superset[OF fin, symmetric]) simp
  also have "(\<Sum>k\<in>?A. get running k) = total running"
    by (rule total_superset[OF fin, symmetric]) simp
  finally show ?thesis .
qed

lemma dom_out_borrowed:
  assumes "ranges ks1 running" "ranges ks2 az"
    "ranges ks3 (out (covered ks1 ks2 running az region))"
  shows "dom (out (borrowed ks1 ks2 ks3 running az region)) = dom running \<union> dom az"
proof -
  have "set ks3 \<subseteq> dom (out (covered ks1 ks2 running az region))"
    using assms(3) by (simp add: ranges_def)
  then show ?thesis
    unfolding borrowed_def by (simp add: fold_borrow_dom_out dom_out_covered[OF assms(1,2)])
qed

lemma dom_region_borrowed:
  "dom (regionReservations (borrowed ks1 ks2 ks3 running az region)) \<subseteq> dom region"
  unfolding borrowed_def using fold_borrow_dom_region[of ks3 "covered ks1 ks2 running az region"]
  by simp

lemma reconcile_add:
  assumes "ranges ks4 (regionReservations (borrowed ks1 ks2 ks3 running az region))"
  shows "reconcile ks1 ks2 ks3 ks4 running az region =
         out (borrowed ks1 ks2 ks3 running az region) ++
         regionReservations (borrowed ks1 ks2 ks3 running az region)"
  using assms
  by (auto simp: reconcile_def reconcile_state_def out_fold_flush ranges_def fun_eq_iff
      map_add_def get_def dom_def split: option.splits)

lemma total_add_disjoint:
  assumes "finite (dom m1)" "finite (dom m2)" "dom m1 \<inter> dom m2 = {}"
  shows "total (m1 ++ m2) = total m1 + total m2"
proof -
  have "total (m1 ++ m2) = (\<Sum>k\<in>dom m2 \<union> dom m1. get (m1 ++ m2) k)"
    by (simp add: total_get)
  also have "\<dots> = (\<Sum>k\<in>dom m2. get (m1 ++ m2) k) + (\<Sum>k\<in>dom m1. get (m1 ++ m2) k)"
    using assms by (intro sum.union_disjoint) auto
  also have "(\<Sum>k\<in>dom m2. get (m1 ++ m2) k) = (\<Sum>k\<in>dom m2. get m2 k)"
    by (rule sum.cong) (auto simp: get_def map_add_def split: option.splits)
  also have "(\<Sum>k\<in>dom m1. get (m1 ++ m2) k) = (\<Sum>k\<in>dom m1. get m1 k)"
    using assms(3) by (intro sum.cong) (auto simp: get_def map_add_def split: option.splits)
  finally show ?thesis by (simp add: total_get)
qed

lemma borrow_region_back:
  "dom (regionReservations s) \<subseteq>
     insert \<lparr>Type = Type k, AZ = ''''\<rparr> (dom (regionReservations (borrow k s)))"
  by (auto simp: borrow_def Let_def split: option.splits if_splits)

lemma fold_borrow_finite_back:
  "finite (dom (regionReservations (fold borrow ks s))) \<Longrightarrow> finite (dom (regionReservations s))"
proof (induction ks arbitrary: s)
  case Nil
  then show ?case by simp
next
  case (Cons k ks)
  then have "finite (dom (regionReservations (borrow k s)))" by simp
  then have "finite (insert \<lparr>Type = Type k, AZ = ''''\<rparr> (dom (regionReservations (borrow k s))))"
    by simp
  then show ?case using borrow_region_back by (rule finite_subset[rotated])
qed

lemma orders_finite_region:
  assumes "ranges ks4 (regionReservations (borrowed ks1 ks2 ks3 running az region))"
  shows "finite (dom region)"
proof -
  have "finite (dom (regionReservations (fold borrow ks3 (covered ks1 ks2 running az region))))"
    using ranges_finite[OF assms] by (simp add: borrowed_def)
  then have "finite (dom (regionReservations (covered ks1 ks2 running az region)))"
    by (rule fold_borrow_finite_back)
  then show ?thesis by simp
qed

subsection \<open>One step of the borrowing loop\<close>

lemma fold_borrow_keeps:
  "0 \<le> get (out s) k \<Longrightarrow> fold borrow ks s = s' \<Longrightarrow> out s' k = out s k"
proof (induction ks arbitrary: s)
  case Nil
  then show ?case by simp
next
  case (Cons k' ks)
  have o: "out (borrow k' s) k = out s k"
    using Cons.prems(1) by (cases "k' = k") (simp_all add: borrow_noop borrow_out_other)
  then have "0 \<le> get (out (borrow k' s)) k" using Cons.prems(1) by (simp add: get_def)
  then have "out s' k = out (borrow k' s) k" using Cons.prems(2) by (intro Cons.IH) simp_all
  then show ?case using o by simp
qed

lemma borrow_nonneg: "nonneg (regionReservations s) \<Longrightarrow> nonneg (regionReservations (borrow k s))"
  by (auto simp: nonneg_def borrow_def Let_def split: option.splits if_splits)

lemma fold_borrow_nonneg:
  "nonneg (regionReservations s) \<Longrightarrow> nonneg (regionReservations (fold borrow ks s))"
  by (induction ks arbitrary: s) (simp_all add: borrow_nonneg)

lemma fold_borrow_region_gone:
  assumes "regionReservations s k2 = None"
  shows "regionReservations (fold borrow ks s) k2 = None"
  using assms fold_borrow_dom_region[of ks s] by (auto simp: dom_def)

lemma ranges_single:
  assumes "ranges ks [k \<mapsto> v]"
  shows "ks = [k]"
proof -
  from assms have d: "distinct ks" and s: "set ks = {k}" by (simp_all add: ranges_def)
  from s obtain x xs where ks: "ks = x # xs" by (cases ks) auto
  with s have x: "x = k" by auto
  have "set xs \<subseteq> {k}" using s ks by auto
  moreover have "k \<notin> set xs" using d ks x by simp
  ultimately have "xs = []" by (cases xs) auto
  then show ?thesis using ks x by simp
qed

lemma ranges_empty: "ranges ks Map.empty \<Longrightarrow> ks = []"
  by (simp add: ranges_def)

lemmas run_defs = reconcile_def reconcile_state_def borrowed_def covered_def seeded_def
  enter_def seed_def cover_def borrow_def flush_def get_def

lemma borrow_excess:
  assumes "get (out s) k = v" "v < 0"
    "regionReservations s \<lparr>Type = Type k, AZ = ''''\<rparr> = Some h" "- v < h"
  shows "out (borrow k s) k = Some (h + 2 * v)" 
    "regionReservations (borrow k s) \<lparr>Type = Type k, AZ = ''''\<rparr> = Some (- v)"
  using assms by (simp_all add: borrow_def Let_def)

lemma borrow_whole:
  assumes "get (out s) k = v" "v < 0"
    "regionReservations s \<lparr>Type = Type k, AZ = ''''\<rparr> = Some h" "h \<le> - v"
  shows "out (borrow k s) k = Some (v + h)"
    "regionReservations (borrow k s) \<lparr>Type = Type k, AZ = ''''\<rparr> = None"
  using assms by (simp_all add: borrow_def Let_def)

lemma borrow_region_other:
  "p \<noteq> \<lparr>Type = Type j, AZ = ''''\<rparr> \<Longrightarrow>
   regionReservations (borrow j s) p = regionReservations s p"
  by (simp add: borrow_def Let_def split: option.splits)

lemma borrow_moves:
  "get (out (borrow j s)) j - get (out s) j =
   get (regionReservations s) \<lparr>Type = Type j, AZ = ''''\<rparr> -
   get (regionReservations (borrow j s)) \<lparr>Type = Type j, AZ = ''''\<rparr>"
  by (simp add: borrow_def Let_def get_def split: option.splits)

subsection \<open>Keys of the data model\<close>

lemma nonneg_get: "nonneg m \<Longrightarrow> 0 \<le> get m k"
  unfolding nonneg_def get_def by (cases "m k") (simp, metis domI option.sel option.simps(5))

lemma zoned_region_key:
  assumes "zoned running az region" "AZ k2 = []"
  shows "k2 \<notin> dom running \<union> dom az"
  using assms unfolding zoned_def by blast

lemma zoned_result_key:
  assumes r1: "ranges ks1 running" and r2: "ranges ks2 az"
    and r4: "ranges ks4 (regionReservations (borrowed ks1 ks2 ks3 running az region))"
    and z: "zoned running az region"
    and k: "k \<in> dom running \<union> dom az"
  shows "reconcile ks1 ks2 ks3 ks4 running az region k =
         out (borrowed ks1 ks2 ks3 running az region) k"
proof -
  have "AZ k \<noteq> ''''" using z k by (auto simp: zoned_def)
  then have "k \<notin> dom region" using z by (auto simp: zoned_def)
  then have "k \<notin> dom (regionReservations (borrowed ks1 ks2 ks3 running az region))"
    using dom_region_borrowed by blast
  then show ?thesis by (simp add: reconcile_add[OF r4] map_add_def domIff)
qed

section \<open>The report sequences\<close>

lemma fold_report:
  "fold (report res) ks (od, un) =
     (od @ map (\<lambda>k. \<lparr>reportedInfo.Type = Type k, AZ = AZ k, Count = - get res k\<rparr>)
             (filter (\<lambda>k. get res k < 0) ks),
      un @ map (\<lambda>k. \<lparr>reportedInfo.Type = Type k, AZ = '''', Count = get res k\<rparr>)
             (filter (\<lambda>k. 0 < get res k) ks))"
  by (induction ks arbitrary: od un) (simp_all add: report_def)

lemma reports_eq:
  "reports ks res =
     (map (\<lambda>k. \<lparr>reportedInfo.Type = Type k, AZ = AZ k, Count = - get res k\<rparr>)
          (filter (\<lambda>k. get res k < 0) ks),
      map (\<lambda>k. \<lparr>reportedInfo.Type = Type k, AZ = '''', Count = get res k\<rparr>)
          (filter (\<lambda>k. 0 < get res k) ks))"
  by (simp add: reports_def fold_report)

lemma set_insert_stable: "set (insert_stable lt x ys) = insert x (set ys)"
  by (induction ys) auto

lemma set_sliceStable: "set (sliceStable lt xs) = set xs"
  by (induction xs) (simp_all add: sliceStable_def set_insert_stable)

lemma sorted_reports_eq:
  "sorted_reports ks res =
     (sliceStable by_type (fst (reports ks res)), sliceStable by_type (snd (reports ks res)))"
  by (simp add: sorted_reports_def split: prod.splits)

lemma reports_positive:
  "r \<in> set (fst (reports ks res)) \<union> set (snd (reports ks res)) \<Longrightarrow> 0 < Count r"
  by (auto simp: reports_eq)

subsection \<open>The stable sort by type\<close>

lemma sorted_insert_stable:
  "sorted (map reportedInfo.Type ys) \<Longrightarrow>
   sorted (map reportedInfo.Type (insert_stable by_type x ys))"
  by (induction ys) (auto simp: by_type_def set_insert_stable)

lemma sorted_sliceStable: "sorted (map reportedInfo.Type (sliceStable by_type xs))"
  by (induction xs) (simp_all add: sliceStable_def sorted_insert_stable)

lemma filter_insert_stable:
  "filter (\<lambda>r. reportedInfo.Type r = t) (insert_stable by_type x ys) =
   filter (\<lambda>r. reportedInfo.Type r = t) (x # ys)"
  by (induction ys) (auto simp: by_type_def)

lemma filter_sliceStable:
  "filter (\<lambda>r. reportedInfo.Type r = t) (sliceStable by_type xs) =
   filter (\<lambda>r. reportedInfo.Type r = t) xs"
proof (induction xs)
  case Nil
  show ?case by (simp add: sliceStable_def)
next
  case (Cons x xs)
  have "sliceStable by_type (x # xs) = insert_stable by_type x (sliceStable by_type xs)"
    by (simp add: sliceStable_def)
  then show ?case using Cons.IH by (simp add: filter_insert_stable)
qed

lemma length_insert_stable: "length (insert_stable lt x ys) = Suc (length ys)"
  by (induction ys) simp_all

lemma length_sliceStable: "length (sliceStable lt xs) = length xs"
  by (induction xs) (simp_all add: sliceStable_def length_insert_stable)

subsection \<open>What is written\<close>

lemma fold_fprintf: "fold (fprintf format) vs tw = tw @ map format vs"
  by (induction vs arbitrary: tw) (simp_all add: fprintf_def)

lemma render_eq:
  "render od un =
     (if od = [] then [] else (''On-demand EC2 instances:'' @ [CHR 0x0A]) # map line_on_demand od) @
     (if un = [] then [] else (''Unused reservations:'' @ [CHR 0x0A]) # map line_unused un)"
  by (simp add: render_def fprintln_def fold_fprintf)

lemma tab_in_lines:
  "CHR 0x09 \<in> set (line_on_demand v)" "CHR 0x09 \<in> set (line_unused v)"
  by (simp_all add: line_on_demand_def line_unused_def)

lemma header_not_line:
  "''On-demand EC2 instances:'' @ [CHR 0x0A] \<noteq> line_on_demand v"
  "''On-demand EC2 instances:'' @ [CHR 0x0A] \<noteq> line_unused v"
  "''Unused reservations:'' @ [CHR 0x0A] \<noteq> line_on_demand v"
  "''Unused reservations:'' @ [CHR 0x0A] \<noteq> line_unused v"
proof -
  have a: "CHR 0x09 \<notin> set (''On-demand EC2 instances:'' @ [CHR 0x0A])" by simp
  have b: "CHR 0x09 \<notin> set (''Unused reservations:'' @ [CHR 0x0A])" by simp
  show "''On-demand EC2 instances:'' @ [CHR 0x0A] \<noteq> line_on_demand v"
    using a tab_in_lines(1)[of v] by metis
  show "''On-demand EC2 instances:'' @ [CHR 0x0A] \<noteq> line_unused v"
    using a tab_in_lines(2)[of v] by metis
  show "''Unused reservations:'' @ [CHR 0x0A] \<noteq> line_on_demand v"
    using b tab_in_lines(1)[of v] by metis
  show "''Unused reservations:'' @ [CHR 0x0A] \<noteq> line_unused v"
    using b tab_in_lines(2)[of v] by metis
qed

section \<open>Reading the responses\<close>

lemma count_instances_populated:
  "\<forall>i\<in>set insts. populated_instance i \<Longrightarrow> \<exists>m'. count_instances insts m = Done m'"
  by (induction insts arbitrary: m)
    (auto simp: populated_instance_def Let_def split: option.splits)

lemma count_reservations_populated:
  "\<forall>r\<in>set resp. \<forall>i\<in>set (Instances r). populated_instance i \<Longrightarrow>
   \<exists>m'. count_reservations resp m = Done m'"
proof (induction resp arbitrary: m)
  case Nil
  show ?case by simp
next
  case (Cons r resp)
  then obtain m1 where m1: "count_instances (Instances r) m = Done m1"
    using count_instances_populated[of "Instances r" m] by auto
  obtain m2 where "count_reservations resp m1 = Done m2"
    using Cons.IH[of m1] Cons.prems by auto
  then show ?case using m1 by simp
qed

lemma scan_reserved_not_done:
  "r \<in> set ris \<Longrightarrow> \<not> known_scope r \<Longrightarrow> scan_reserved ris (az, region) \<noteq> Done x"
proof (induction ris arbitrary: az region)
  case Nil
  then show ?case by simp
next
  case (Cons a ris)
  show ?case
  proof (cases "known_scope a")
    case True
    then have "r \<in> set ris" using Cons.prems by auto
    then have "scan_reserved ris acc \<noteq> Done x" for acc
      using Cons.IH[of "fst acc" "snd acc"] Cons.prems(2) by simp
    then show ?thesis
      by (simp add: Let_def split: option.splits)
  next
    case False
    then show ?thesis
      by (auto simp: known_scope_def split: option.splits)
  qed
qed

lemma scan_reserved_first_unknown:
  "\<forall>a\<in>set ris. populated_reserved a \<Longrightarrow> r \<in> set ris \<Longrightarrow> \<not> known_scope r \<Longrightarrow>
   \<exists>u sc. find (\<lambda>a. \<not> known_scope a) ris = Some u \<and> Scope u = Some sc \<and>
          scan_reserved ris (az, region) = Failed (UnknownScope sc)"
proof (induction ris arbitrary: az region)
  case Nil
  then show ?case by simp
next
  case (Cons a ris)
  from Cons.prems(1) have pa: "populated_reserved a" by simp
  show ?case
  proof (cases "known_scope a")
    case True
    then have "r \<in> set ris" using Cons.prems by auto
    then have ih: "\<exists>u sc. find (\<lambda>a. \<not> known_scope a) ris = Some u \<and> Scope u = Some sc \<and>
          scan_reserved ris acc = Failed (UnknownScope sc)" for acc
      using Cons.IH[of "fst acc" "snd acc"] Cons.prems by simp
    from True consider "Scope a = Some ''Region''" | "Scope a = Some ''Availability Zone''"
      by (auto simp: known_scope_def)
    then show ?thesis
    proof cases
      case 1
      obtain t c where "ec2_ReservedInstances.InstanceType a = Some t" "InstanceCount a = Some c"
        using pa by (auto simp: populated_reserved_def)
      then show ?thesis using 1 True ih by (simp add: Let_def)
    next
      case 2
      obtain t c z where "ec2_ReservedInstances.InstanceType a = Some t" "InstanceCount a = Some c"
        "ec2_ReservedInstances.AvailabilityZone a = Some z"
        using pa 2 by (auto simp: populated_reserved_def)
      then show ?thesis using 2 True ih by (simp add: Let_def)
    qed
  next
    case False
    obtain sc where sc: "Scope a = Some sc" using pa by (auto simp: populated_reserved_def)
    then have "sc \<noteq> ''Region''" "sc \<noteq> ''Availability Zone''"
      using False by (auto simp: known_scope_def)
    then show ?thesis using sc False by simp
  qed
qed

lemma do_aborted:
  assumes "describeReservedInstances e = Inr ris" "r \<in> set ris" "\<not> known_scope r"
  shows "written (do e) = [] \<and> reconciled (do e) = 0 \<and> (\<forall>u. returned (do e) \<noteq> Done u)"
proof -
  have "scan_reserved ris (Map.empty, Map.empty) \<noteq> Done x" for x
    using assms(2,3) by (rule scan_reserved_not_done)
  then show ?thesis
    using assms(1)
    by (auto simp: do_def split: option.splits sum.splits result.splits)
qed

section \<open>Counts stay in range\<close>

text \<open>
  On counts between 0 and \<open>M\<close>, every value \<^verbatim>\<open>reconcile\<close> stores lies between
  \<open>- M\<close> and \<open>M\<close>: with \<open>M\<close> the largest \<^verbatim>\<open>int\<close>, the arithmetic of the
  function does not wrap around on such inputs.
\<close>

lemma within_upd: "within M m \<Longrightarrow> - M \<le> w \<Longrightarrow> w \<le> M \<Longrightarrow> within M (m(k \<mapsto> w))"
  by (simp add: within_def)

lemma within_del: "within M m \<Longrightarrow> 0 \<le> M \<Longrightarrow> within M (m(k := None))"
  by (simp add: within_def get_def)

lemma borrow_within:
  assumes "within M (out s)" "within M (regionReservations s)" "nonneg (regionReservations s)"
  shows "within M (out (borrow k s)) \<and> within M (regionReservations (borrow k s))"
proof (cases "0 \<le> get (out s) k")
  case True
  then show ?thesis using assms by (simp add: borrow_noop)
next
  case neg: False
  let ?k2 = "\<lparr>Type = Type k, AZ = []\<rparr>"
  let ?v = "get (out s) k"
  show ?thesis
  proof (cases "regionReservations s ?k2")
    case None
    then show ?thesis using neg assms by (simp add: borrow_def)
  next
    case (Some v2)
    then have g: "get (regionReservations s) ?k2 = v2" by (simp add: get_def)
    have v2: "0 \<le> v2" "v2 \<le> M" using assms(2,3) g nonneg_get[of "regionReservations s" ?k2]
      by (auto simp: within_def)
    have v: "- M \<le> ?v" "?v < 0" using assms(1) neg by (simp_all add: within_def)
    show ?thesis
    proof (cases "v2 \<le> - ?v")
      case True
      then have "borrow k s = s\<lparr>out := (out s)(k \<mapsto> ?v + v2),
                   regionReservations := (regionReservations s)(?k2 := None)\<rparr>"
        using neg Some by (simp add: borrow_def Let_def)
      moreover have "within M ((out s)(k \<mapsto> ?v + v2))"
        using assms(1) v v2 True by (intro within_upd) simp_all
      moreover have "within M ((regionReservations s)(?k2 := None))"
        using assms(2) v2 by (intro within_del) simp_all
      ultimately show ?thesis by simp
    next
      case False
      then have "borrow k s = s\<lparr>out := (out s)(k \<mapsto> ?v + (v2 - - ?v)),
                   regionReservations := (regionReservations s)(?k2 \<mapsto> v2 - (v2 - - ?v))\<rparr>"
        using neg Some by (simp add: borrow_def Let_def)
      moreover have "within M ((out s)(k \<mapsto> ?v + (v2 - - ?v)))"
        using assms(1) v v2 False by (intro within_upd) simp_all
      moreover have "within M ((regionReservations s)(?k2 \<mapsto> v2 - (v2 - - ?v)))"
        using assms(2) v v2 False by (intro within_upd) simp_all
      ultimately show ?thesis by simp
    qed
  qed
qed

lemma fold_borrow_within:
  assumes "within M (out s)" "within M (regionReservations s)" "nonneg (regionReservations s)"
  shows "within M (out (fold borrow ks s)) \<and> within M (regionReservations (fold borrow ks s))"
  using assms
proof (induction ks arbitrary: s)
  case Nil
  then show ?case by simp
next
  case (Cons k ks)
  have "within M (out (borrow k s)) \<and> within M (regionReservations (borrow k s))"
    using Cons.prems by (rule borrow_within)
  moreover have "nonneg (regionReservations (borrow k s))"
    using Cons.prems(3) by (rule borrow_nonneg)
  ultimately show ?case using Cons.IH[of "borrow k s"] by simp
qed

lemma within_nonneg: "nonneg m \<Longrightarrow> within M m \<Longrightarrow> 0 \<le> get m k \<and> get m k \<le> M"
  by (simp add: nonneg_get within_def)

lemma reconcile_within:
  assumes o: "orders ks1 ks2 ks3 ks4 running az region"
    and n: "nonneg running" "nonneg az" "nonneg region"
    and w: "within M running" "within M az" "within M region"
  shows "within M (out (covered ks1 ks2 running az region)) \<and>
         within M (out (borrowed ks1 ks2 ks3 running az region)) \<and>
         within M (regionReservations (borrowed ks1 ks2 ks3 running az region)) \<and>
         within M (reconcile ks1 ks2 ks3 ks4 running az region)"
proof -
  let ?c = "covered ks1 ks2 running az region"
  let ?b = "borrowed ks1 ks2 ks3 running az region"
  from o have r1: "ranges ks1 running" and r2: "ranges ks2 az"
    and r4: "ranges ks4 (regionReservations ?b)"
    by (simp_all add: orders_def)
  have c: "within M (out ?c)"
    unfolding within_def get_out_covered[OF r1 r2]
  proof
    fix k
    show "- M \<le> get az k - get running k \<and> get az k - get running k \<le> M"
      using within_nonneg[OF n(1) w(1), of k] within_nonneg[OF n(2) w(2), of k] by linarith
  qed
  have b: "within M (out ?b) \<and> within M (regionReservations ?b)"
    unfolding borrowed_def using c w(3) n(3) by (intro fold_borrow_within) simp_all
  have "get (m1 ++ m2) k = get m1 k \<or> get (m1 ++ m2) k = get m2 k" for m1 m2 :: gomap and k
    by (auto simp: get_def map_add_def split: option.splits)
  then have "within M (m1 ++ m2)" if "within M m1" "within M m2" for m1 m2 :: gomap
    using that unfolding within_def by metis
  then have "within M (reconcile ks1 ks2 ks3 ks4 running az region)"
    unfolding reconcile_add[OF r4] using b by blast
  then show ?thesis using c b by simp
qed

section \<open>The claims\<close>

text \<open>
  C1. The claim: when the pool holds more than a key needs, the deficit of the key is
  closed and the pool keeps \<open>have - need\<close>, so that three running \<open>m3.medium\<close>
  instances in \<open>us-east-1a\<close> and five region-scoped \<open>m3.medium\<close> reservations
  give two unused reservations and no deficit. The code does otherwise: in the branch
  \<open>need < have\<close> it moves \<open>have - need\<close> from the pool to the key and leaves
  \<open>need\<close> in the pool. On that input, for every order of the loops, \<^verbatim>\<open>reconcile\<close>
  returns a deficit of one for the zone key and three unused reservations for the
  region key.
\<close>

theorem reconcile_excess_pool:
  assumes "orders ks1 ks2 ks3 ks4 [m3_medium_1a \<mapsto> 3] Map.empty [m3_medium_region \<mapsto> 5]"
  shows "reconcile ks1 ks2 ks3 ks4 [m3_medium_1a \<mapsto> 3] Map.empty [m3_medium_region \<mapsto> 5] =
         [m3_medium_1a \<mapsto> - 1, m3_medium_region \<mapsto> 3]"
proof -
  from assms have 1: "ks1 = [m3_medium_1a]" and 2: "ks2 = []"
    by (auto simp: orders_def dest: ranges_single ranges_empty)
  have c: "out (covered [m3_medium_1a] [] [m3_medium_1a \<mapsto> 3] Map.empty [m3_medium_region \<mapsto> 5]) =
           [m3_medium_1a \<mapsto> - 3]"
    by (simp add: run_defs)
  from assms have 3: "ks3 = [m3_medium_1a]"
    unfolding orders_def 1 2 c by (auto dest: ranges_single)
  have b: "regionReservations (borrowed [m3_medium_1a] [] [m3_medium_1a]
             [m3_medium_1a \<mapsto> 3] Map.empty [m3_medium_region \<mapsto> 5]) = [m3_medium_region \<mapsto> 3]"
    by (simp add: run_defs m3_medium_1a_def m3_medium_region_def)
  from assms have 4: "ks4 = [m3_medium_region]"
    unfolding orders_def 1 2 3 b by (auto dest: ranges_single)
  show ?thesis
    unfolding 1 2 3 4 by (simp add: run_defs m3_medium_1a_def m3_medium_region_def)
qed

theorem reconcile_excess_pool_witness:
  "orders [m3_medium_1a] [] [m3_medium_1a] [m3_medium_region]
     [m3_medium_1a \<mapsto> 3] Map.empty [m3_medium_region \<mapsto> 5] \<and>
   reconcile [m3_medium_1a] [] [m3_medium_1a] [m3_medium_region]
     [m3_medium_1a \<mapsto> 3] Map.empty [m3_medium_region \<mapsto> 5] =
     [m3_medium_1a \<mapsto> - 1, m3_medium_region \<mapsto> 3]"
proof -
  have o: "orders [m3_medium_1a] [] [m3_medium_1a] [m3_medium_region]
     [m3_medium_1a \<mapsto> 3] Map.empty [m3_medium_region \<mapsto> 5]"
    by (simp add: orders_def ranges_def run_defs m3_medium_1a_def m3_medium_region_def)
  show ?thesis using reconcile_excess_pool[OF o] o by simp
qed

text \<open>
  C2. On inputs whose running and zone-scoped keys carry a zone and whose
  region-scoped keys carry none, for every order of the loops: the uncovered total of
  the result minus its unused total is the total of the running counts minus the
  total of the zone-scoped and region-scoped reservation counts.
\<close>

theorem conservation:
  assumes o: "orders ks1 ks2 ks3 ks4 running az region"
    and z: "zoned running az region"
  shows "uncovered (reconcile ks1 ks2 ks3 ks4 running az region) -
         unused (reconcile ks1 ks2 ks3 ks4 running az region) =
         total running - (total az + total region)"
proof -
  let ?c = "covered ks1 ks2 running az region"
  let ?b = "borrowed ks1 ks2 ks3 running az region"
  let ?res = "reconcile ks1 ks2 ks3 ks4 running az region"
  from o have r1: "ranges ks1 running" and r2: "ranges ks2 az"
    and r3: "ranges ks3 (out ?c)" and r4: "ranges ks4 (regionReservations ?b)"
    by (simp_all add: orders_def)
  have res: "?res = out ?b ++ regionReservations ?b" by (rule reconcile_add[OF r4])
  have dout: "dom (out ?b) = dom running \<union> dom az" by (rule dom_out_borrowed[OF r1 r2 r3])
  have dreg: "dom (regionReservations ?b) \<subseteq> dom region" by (rule dom_region_borrowed)
  have fout: "finite (dom (out ?b))" using dout r1 r2 by (simp add: ranges_finite)
  have freg: "finite (dom (regionReservations ?b))" using r4 by (rule ranges_finite)
  have disj: "dom (out ?b) \<inter> dom (regionReservations ?b) = {}"
    using z dreg unfolding dout zoned_def by blast
  have fc: "finite (dom (out ?c))" using r3 by (rule ranges_finite)
  have fr: "finite (dom (regionReservations ?c))"
    using orders_finite_region[OF r4] by simp
  have "finite (dom ?res)" unfolding res using fout freg by simp
  then have "uncovered ?res - unused ?res = - total ?res" by (rule sign_split)
  also have "total ?res = total (out ?b) + total (regionReservations ?b)"
    unfolding res by (rule total_add_disjoint[OF fout freg disj])
  also have "\<dots> = total (out ?c) + total (regionReservations ?c)"
    unfolding borrowed_def by (rule fold_borrow_total[OF fc fr])
  also have "\<dots> = total az - total running + total region"
    by (simp add: total_covered[OF r1 r2])
  finally show ?thesis by simp
qed

theorem conservation_witness:
  "orders [m3_medium_1a, c5_large_1b] [c5_large_1b] [c5_large_1b, m3_medium_1a] [m3_medium_region]
     [m3_medium_1a \<mapsto> 3, c5_large_1b \<mapsto> 1] [c5_large_1b \<mapsto> 4] [m3_medium_region \<mapsto> 5] \<and>
   zoned [m3_medium_1a \<mapsto> 3, c5_large_1b \<mapsto> 1] [c5_large_1b \<mapsto> 4] [m3_medium_region \<mapsto> 5] \<and>
   uncovered (reconcile [m3_medium_1a, c5_large_1b] [c5_large_1b] [c5_large_1b, m3_medium_1a]
     [m3_medium_region]
     [m3_medium_1a \<mapsto> 3, c5_large_1b \<mapsto> 1] [c5_large_1b \<mapsto> 4] [m3_medium_region \<mapsto> 5]) -
   unused (reconcile [m3_medium_1a, c5_large_1b] [c5_large_1b] [c5_large_1b, m3_medium_1a]
     [m3_medium_region]
     [m3_medium_1a \<mapsto> 3, c5_large_1b \<mapsto> 1] [c5_large_1b \<mapsto> 4] [m3_medium_region \<mapsto> 5]) =
   total [m3_medium_1a \<mapsto> 3, c5_large_1b \<mapsto> 1] -
     (total [c5_large_1b \<mapsto> 4] + total [m3_medium_region \<mapsto> 5]) \<and>
   total [m3_medium_1a \<mapsto> 3, c5_large_1b \<mapsto> 1] -
     (total [c5_large_1b \<mapsto> 4] + total [m3_medium_region \<mapsto> 5]) = - 5"
proof -
  have ne: "m3_medium_1a \<noteq> c5_large_1b" "m3_medium_1a \<noteq> m3_medium_region"
    "c5_large_1b \<noteq> m3_medium_region" "c5_large_1b \<noteq> m3_medium_1a"
    by (simp_all add: m3_medium_1a_def m3_medium_region_def c5_large_1b_def)
  have o: "orders [m3_medium_1a, c5_large_1b] [c5_large_1b] [c5_large_1b, m3_medium_1a]
     [m3_medium_region]
     [m3_medium_1a \<mapsto> 3, c5_large_1b \<mapsto> 1] [c5_large_1b \<mapsto> 4] [m3_medium_region \<mapsto> 5]"
    by (auto simp add: orders_def ranges_def run_defs m3_medium_1a_def m3_medium_region_def c5_large_1b_def)
  have z: "zoned [m3_medium_1a \<mapsto> 3, c5_large_1b \<mapsto> 1] [c5_large_1b \<mapsto> 4] [m3_medium_region \<mapsto> 5]"
    by (simp add: zoned_def m3_medium_1a_def m3_medium_region_def c5_large_1b_def)
  have t: "total [m3_medium_1a \<mapsto> 3, c5_large_1b \<mapsto> 1] -
     (total [c5_large_1b \<mapsto> 4] + total [m3_medium_region \<mapsto> 5]) = - 5"
    using ne by (simp add: total_def)
  show ?thesis using conservation[OF o z] o z t by simp
qed

text \<open>
  C3. Let the borrowing loop, in any order, reach a key \<open>k\<close> whose value \<open>v\<close> is
  negative while the pool of the type of \<open>k\<close> holds \<open>h\<close> with \<open>h \<le> - v\<close>. Then the
  step gives \<open>k\<close> the whole pool and deletes the pool's entry; on inputs keyed as in
  the data model the returned map holds \<open>v + h\<close> at \<open>k\<close> and has no entry for the
  region key of that type.
\<close>

theorem insufficient_pool:
  assumes o: "orders ks1 ks2 ks3 ks4 running az region"
    and z: "zoned running az region"
    and ks3: "ks3 = pre @ k # post"
    and s: "s = fold borrow pre (covered ks1 ks2 running az region)"
    and v: "get (out s) k = v" "v < 0"
    and h: "regionReservations s \<lparr>Type = Type k, AZ = ''''\<rparr> = Some h" "h \<le> - v"
  shows "out (borrow k s) k = Some (v + h) \<and>
         regionReservations (borrow k s) \<lparr>Type = Type k, AZ = ''''\<rparr> = None \<and>
         reconcile ks1 ks2 ks3 ks4 running az region k = Some (v + h) \<and>
         reconcile ks1 ks2 ks3 ks4 running az region \<lparr>Type = Type k, AZ = ''''\<rparr> = None"
proof -
  let ?k2 = "\<lparr>Type = Type k, AZ = ''''\<rparr>"
  let ?c = "covered ks1 ks2 running az region"
  let ?b = "borrowed ks1 ks2 ks3 running az region"
  from o have r1: "ranges ks1 running" and r2: "ranges ks2 az"
    and r3: "ranges ks3 (out ?c)" and r4: "ranges ks4 (regionReservations ?b)"
    by (simp_all add: orders_def)
  have step: "out (borrow k s) k = Some (v + h)" "regionReservations (borrow k s) ?k2 = None"
    using borrow_whole[OF v h] by simp_all
  have b: "?b = fold borrow post (borrow k s)"
    by (simp add: borrowed_def ks3 s)
  have "distinct ks3" using r3 by (simp add: ranges_def)
  then have "k \<notin> set post" by (simp add: ks3)
  then have outk: "out ?b k = Some (v + h)"
    unfolding b using step(1) by (simp add: fold_borrow_out_other)
  have regk: "regionReservations ?b ?k2 = None"
    unfolding b using step(2) by (rule fold_borrow_region_gone)
  have "k \<in> set ks3" by (simp add: ks3)
  then have kd: "k \<in> dom running \<union> dom az"
    using r3 dom_out_covered[OF r1 r2] by (simp add: ranges_def)
  have 1: "reconcile ks1 ks2 ks3 ks4 running az region k = Some (v + h)"
    using zoned_result_key[OF r1 r2 r4 z kd] outk by simp
  have "?k2 \<notin> dom running \<union> dom az" using z by (rule zoned_region_key) simp
  then have "out ?b ?k2 = None"
    using dom_out_borrowed[OF r1 r2 r3] by (auto simp: domIff)
  then have 2: "reconcile ks1 ks2 ks3 ks4 running az region ?k2 = None"
    using regk by (simp add: reconcile_add[OF r4] map_add_def)
  show ?thesis using step 1 2 by simp
qed

theorem insufficient_pool_witness:
  "orders [m3_medium_1a] [] [m3_medium_1a] [] [m3_medium_1a \<mapsto> 5] Map.empty [m3_medium_region \<mapsto> 2] \<and>
   zoned [m3_medium_1a \<mapsto> 5] Map.empty [m3_medium_region \<mapsto> 2] \<and>
   reconcile [m3_medium_1a] [] [m3_medium_1a] [] [m3_medium_1a \<mapsto> 5] Map.empty
     [m3_medium_region \<mapsto> 2] m3_medium_1a = Some (- 3) \<and>
   reconcile [m3_medium_1a] [] [m3_medium_1a] [] [m3_medium_1a \<mapsto> 5] Map.empty
     [m3_medium_region \<mapsto> 2] m3_medium_region = None \<and>
   unused (reconcile [m3_medium_1a] [] [m3_medium_1a] [] [m3_medium_1a \<mapsto> 5] Map.empty
     [m3_medium_region \<mapsto> 2]) = 0"
proof -
  let ?run = "[m3_medium_1a \<mapsto> 5]" and ?reg = "[m3_medium_region \<mapsto> 2]"
  have o: "orders [m3_medium_1a] [] [m3_medium_1a] [] ?run Map.empty ?reg"
    by (simp add: orders_def ranges_def run_defs m3_medium_1a_def m3_medium_region_def)
  have z: "zoned ?run Map.empty ?reg"
    by (simp add: zoned_def m3_medium_1a_def m3_medium_region_def)
  have c: "covered [m3_medium_1a] [] ?run Map.empty ?reg =
           \<lparr>runningInstances = ?run, azReservations = Map.empty, regionReservations = ?reg,
            out = [m3_medium_1a \<mapsto> - 5]\<rparr>"
    by (simp add: run_defs)
  have s: "covered [m3_medium_1a] [] ?run Map.empty ?reg =
           fold borrow [] (covered [m3_medium_1a] [] ?run Map.empty ?reg)" by simp
  have v: "get (out (covered [m3_medium_1a] [] ?run Map.empty ?reg)) m3_medium_1a = - 5"
    "(- 5 :: int) < 0"
    by (simp_all add: c)
  have h: "regionReservations (covered [m3_medium_1a] [] ?run Map.empty ?reg)
             \<lparr>Type = Type m3_medium_1a, AZ = ''''\<rparr> = Some 2" "(2::int) \<le> - (- 5)"
    by (simp_all add: c m3_medium_1a_def m3_medium_region_def)
  have k2: "\<lparr>Type = Type m3_medium_1a, AZ = ''''\<rparr> = m3_medium_region"
    by (simp add: m3_medium_1a_def m3_medium_region_def)
  have res: "reconcile [m3_medium_1a] [] [m3_medium_1a] [] ?run Map.empty ?reg =
     [m3_medium_1a \<mapsto> - 3]"
    by (simp add: run_defs m3_medium_1a_def m3_medium_region_def)
  have u: "unused [m3_medium_1a \<mapsto> - 3] = 0"
    by (simp add: unused_def)
  have "[m3_medium_1a] = [] @ m3_medium_1a # []" by simp
  from insufficient_pool[OF o z this s v h] o z u
  show ?thesis by (simp add: k2 res)
qed

text \<open>
  C4 as it stands fails: the map \<^verbatim>\<open>reconcile\<close> returns keeps a key whose running
  count is matched exactly by its zone-scoped reservations, with the value zero.
\<close>

theorem zero_entry_counterexample:
  "orders [m3_medium_1a] [m3_medium_1a] [m3_medium_1a] []
     [m3_medium_1a \<mapsto> 3] [m3_medium_1a \<mapsto> 3] Map.empty \<and>
   zoned [m3_medium_1a \<mapsto> 3] [m3_medium_1a \<mapsto> 3] Map.empty \<and>
   nonneg [m3_medium_1a \<mapsto> 3] \<and>
   reconcile [m3_medium_1a] [m3_medium_1a] [m3_medium_1a] []
     [m3_medium_1a \<mapsto> 3] [m3_medium_1a \<mapsto> 3] Map.empty m3_medium_1a = Some 0"
  by (simp add: orders_def ranges_def zoned_def nonneg_def run_defs m3_medium_1a_def)

text \<open>
  C4, amended. The zero entries are dropped where \<^verbatim>\<open>do\<close> derives the report
  from the map: every row of either report sequence has a count above zero, and a key
  whose value in the map is zero adds no row to either sequence.
\<close>

theorem report_rows_nonzero:
  "(\<forall>r \<in> set (fst (sorted_reports ks (reconcile ks1 ks2 ks3 ks4 running az region))) \<union>
          set (snd (sorted_reports ks (reconcile ks1 ks2 ks3 ks4 running az region))).
      0 < Count r) \<and>
   (get (reconcile ks1 ks2 ks3 ks4 running az region) k = 0 \<longrightarrow>
      report (reconcile ks1 ks2 ks3 ks4 running az region) k rows = rows)"
  using reports_positive
  by (auto simp: sorted_reports_eq set_sliceStable report_def split: prod.splits)

theorem report_rows_nonzero_witness:
  "sorted_reports [m3_medium_1a, c5_large_1b]
     (reconcile [m3_medium_1a, c5_large_1b] [m3_medium_1a] [m3_medium_1a, c5_large_1b] []
        [m3_medium_1a \<mapsto> 3, c5_large_1b \<mapsto> 1] [m3_medium_1a \<mapsto> 3] Map.empty) =
     ([\<lparr>reportedInfo.Type = ''c5.large'', AZ = ''us-east-1b'', Count = 1\<rparr>], []) \<and>
   0 < Count \<lparr>reportedInfo.Type = ''c5.large'', AZ = ''us-east-1b'', Count = 1\<rparr> \<and>
   get (reconcile [m3_medium_1a, c5_large_1b] [m3_medium_1a] [m3_medium_1a, c5_large_1b] []
        [m3_medium_1a \<mapsto> 3, c5_large_1b \<mapsto> 1] [m3_medium_1a \<mapsto> 3] Map.empty) m3_medium_1a = 0 \<and>
   report (reconcile [m3_medium_1a, c5_large_1b] [m3_medium_1a] [m3_medium_1a, c5_large_1b] []
        [m3_medium_1a \<mapsto> 3, c5_large_1b \<mapsto> 1] [m3_medium_1a \<mapsto> 3] Map.empty) m3_medium_1a ([], []) =
     ([], [])"
proof -
  let ?res = "reconcile [m3_medium_1a, c5_large_1b] [m3_medium_1a] [m3_medium_1a, c5_large_1b] []
        [m3_medium_1a \<mapsto> 3, c5_large_1b \<mapsto> 1] [m3_medium_1a \<mapsto> 3] Map.empty"
  have res: "?res = [m3_medium_1a \<mapsto> 0, c5_large_1b \<mapsto> - 1]"
    by (auto simp: run_defs m3_medium_1a_def c5_large_1b_def fun_eq_iff)
  have ne: "m3_medium_1a \<noteq> c5_large_1b"
    by (simp add: m3_medium_1a_def c5_large_1b_def)
  have sr: "sorted_reports [m3_medium_1a, c5_large_1b] ?res =
     ([\<lparr>reportedInfo.Type = ''c5.large'', AZ = ''us-east-1b'', Count = 1\<rparr>], [])"
    unfolding res using ne
    by (simp add: sorted_reports_def reports_def report_def sliceStable_def get_def c5_large_1b_def)
  have z: "get ?res m3_medium_1a = 0"
    unfolding res using ne by (simp add: get_def)
  from report_rows_nonzero[of "[m3_medium_1a, c5_large_1b]" "[m3_medium_1a, c5_large_1b]"
      "[m3_medium_1a]" "[m3_medium_1a, c5_large_1b]" "[]"
      "[m3_medium_1a \<mapsto> 3, c5_large_1b \<mapsto> 1]" "[m3_medium_1a \<mapsto> 3]" Map.empty
      m3_medium_1a "([], [])"] sr z
  show ?thesis by simp
qed

text \<open>
  C5. Whenever the running count of a key does not exceed its zone-scoped reservation
  count (a missing entry counting as zero), the returned map has no negative value at
  that key, whatever the region-scoped map holds, as long as its counts are not
  negative or the key has a zone and the region-scoped keys have none; and the step of
  the borrowing loop for that key, at whatever point of the loop, changes nothing:
  neither the key's value nor the pool.
\<close>

theorem zone_before_region:
  assumes o: "orders ks1 ks2 ks3 ks4 running az region"
    and n: "nonneg region \<or> (AZ k \<noteq> '''' \<and> (\<forall>k'\<in>dom region. AZ k' = ''''))"
    and le: "get running k \<le> get az k"
  shows "\<not> get (reconcile ks1 ks2 ks3 ks4 running az region) k < 0 \<and>
         borrow k (fold borrow pre (covered ks1 ks2 running az region)) =
           fold borrow pre (covered ks1 ks2 running az region)"
proof -
  let ?c = "covered ks1 ks2 running az region"
  let ?b = "borrowed ks1 ks2 ks3 running az region"
  from o have r1: "ranges ks1 running" and r2: "ranges ks2 az"
    and r4: "ranges ks4 (regionReservations ?b)"
    by (simp_all add: orders_def)
  have c0: "0 \<le> get (out ?c) k" using le by (simp add: get_out_covered[OF r1 r2])
  have keep: "out (fold borrow ks ?c) k = out ?c k" for ks
    using c0 by (rule fold_borrow_keeps) simp
  have "0 \<le> get (out (fold borrow pre ?c)) k" using c0 keep[of pre] by (simp add: get_def)
  then have 2: "borrow k (fold borrow pre ?c) = fold borrow pre ?c" by (rule borrow_noop)
  have outb: "0 \<le> get (out ?b) k" using c0 keep[of ks3] by (simp add: get_def borrowed_def)
  have regb: "0 \<le> get (regionReservations ?b) k"
    using n
  proof
    assume "nonneg region"
    then have "nonneg (regionReservations ?b)"
      unfolding borrowed_def by (intro fold_borrow_nonneg) simp
    then show ?thesis by (rule nonneg_get)
  next
    assume "AZ k \<noteq> '''' \<and> (\<forall>k'\<in>dom region. AZ k' = '''')"
    then have "k \<notin> dom region" by blast
    then have "k \<notin> dom (regionReservations ?b)" using dom_region_borrowed by blast
    then show ?thesis by (simp add: get_notin)
  qed
  have "0 \<le> get (reconcile ks1 ks2 ks3 ks4 running az region) k"
    using outb regb unfolding reconcile_add[OF r4]
    by (auto simp: get_def map_add_def split: option.splits)
  then show ?thesis using 2 by simp
qed

theorem zone_before_region_witness:
  "orders [m3_medium_1a] [m3_medium_1a] [m3_medium_1a] [m3_medium_region]
     [m3_medium_1a \<mapsto> 3] [m3_medium_1a \<mapsto> 3] [m3_medium_region \<mapsto> 5] \<and>
   nonneg [m3_medium_region \<mapsto> 5] \<and>
   get [m3_medium_1a \<mapsto> 3] m3_medium_1a \<le> get [m3_medium_1a \<mapsto> 3] m3_medium_1a \<and>
   \<not> get (reconcile [m3_medium_1a] [m3_medium_1a] [m3_medium_1a] [m3_medium_region]
     [m3_medium_1a \<mapsto> 3] [m3_medium_1a \<mapsto> 3] [m3_medium_region \<mapsto> 5]) m3_medium_1a < 0 \<and>
   borrow m3_medium_1a (fold borrow [] (covered [m3_medium_1a] [m3_medium_1a]
     [m3_medium_1a \<mapsto> 3] [m3_medium_1a \<mapsto> 3] [m3_medium_region \<mapsto> 5])) =
     fold borrow [] (covered [m3_medium_1a] [m3_medium_1a]
     [m3_medium_1a \<mapsto> 3] [m3_medium_1a \<mapsto> 3] [m3_medium_region \<mapsto> 5]) \<and>
   reconcile [m3_medium_1a] [m3_medium_1a] [m3_medium_1a] [m3_medium_region]
     [m3_medium_1a \<mapsto> 3] [m3_medium_1a \<mapsto> 3] [m3_medium_region \<mapsto> 5] =
     [m3_medium_1a \<mapsto> 0, m3_medium_region \<mapsto> 5]"
proof -
  let ?m = "[m3_medium_1a \<mapsto> (3::int)]" and ?reg = "[m3_medium_region \<mapsto> (5::int)]"
  have o: "orders [m3_medium_1a] [m3_medium_1a] [m3_medium_1a] [m3_medium_region] ?m ?m ?reg"
    by (simp add: orders_def ranges_def run_defs m3_medium_1a_def m3_medium_region_def)
  have n: "nonneg ?reg" by (simp add: nonneg_def)
  then have n': "nonneg ?reg \<or>
      (AZ m3_medium_1a \<noteq> '''' \<and> (\<forall>k'\<in>dom ?reg. AZ k' = ''''))" ..
  have le: "get ?m m3_medium_1a \<le> get ?m m3_medium_1a" by simp
  have r: "reconcile [m3_medium_1a] [m3_medium_1a] [m3_medium_1a] [m3_medium_region] ?m ?m ?reg =
     [m3_medium_1a \<mapsto> 0, m3_medium_region \<mapsto> 5]"
    by (simp add: run_defs m3_medium_1a_def m3_medium_region_def)
  from zone_before_region[OF o n' le, of "[]"] o n le r show ?thesis by simp
qed

text \<open>
  C6. Let the reservations fetched hold a record whose scope is neither \<open>Region\<close>
  nor \<open>Availability Zone\<close>. Then \<^verbatim>\<open>do\<close> writes nothing, does not call
  \<^verbatim>\<open>reconcile\<close>, and the process ends with a status other than zero. When
  moreover the session and the instances were obtained and the records have their
  fields set, \<^verbatim>\<open>do\<close> returns the unknown-scope error naming the scope of the first
  such record, which \<^verbatim>\<open>main\<close> prints before it exits with status 1.
\<close>

theorem unknown_scope_aborts:
  assumes ris: "describeReservedInstances e = Inr ris"
    and bad: "r \<in> set ris" "\<not> known_scope r"
  shows "written (do e) = [] \<and> reconciled (do e) = 0 \<and> status (main e) \<noteq> 0 \<and>
    (newSession e = None \<and> describeInstances e = Inr resp \<and>
     (\<forall>a\<in>set resp. \<forall>i\<in>set (Instances a). populated_instance i) \<and>
     (\<forall>a\<in>set ris. populated_reserved a) \<longrightarrow>
     (\<exists>u sc. find (\<lambda>a. \<not> known_scope a) ris = Some u \<and> Scope u = Some sc \<and>
        returned (do e) = Failed (UnknownScope sc) \<and>
        main e = \<lparr>printed = Some (UnknownScope sc), status = 1\<rparr>))"
proof -
  have a: "written (do e) = []" "reconciled (do e) = 0" "\<forall>u. returned (do e) \<noteq> Done u"
    using do_aborted[OF ris bad] by simp_all
  have st: "status (main e) \<noteq> 0"
    using a(3) by (cases "returned (do e)") (simp_all add: main_def)
  have "\<exists>u sc. find (\<lambda>a. \<not> known_scope a) ris = Some u \<and> Scope u = Some sc \<and>
        returned (do e) = Failed (UnknownScope sc) \<and>
        main e = \<lparr>printed = Some (UnknownScope sc), status = 1\<rparr>"
    if s: "newSession e = None" and i: "describeInstances e = Inr resp"
      and pi: "\<forall>a\<in>set resp. \<forall>i\<in>set (Instances a). populated_instance i"
      and pr: "\<forall>a\<in>set ris. populated_reserved a"
  proof -
    obtain running where c: "count_reservations resp Map.empty = Done running"
      using count_reservations_populated[OF pi] by blast
    obtain u sc where u: "find (\<lambda>a. \<not> known_scope a) ris = Some u" "Scope u = Some sc"
      "scan_reserved ris (Map.empty, Map.empty) = Failed (UnknownScope sc)"
      using scan_reserved_first_unknown[OF pr bad] by blast
    have "returned (do e) = Failed (UnknownScope sc)"
      by (simp add: do_def s i c ris u(3))
    then show ?thesis using u(1,2) by (auto simp: main_def)
  qed
  then show ?thesis using a(1,2) st by blast
qed

theorem unknown_scope_aborts_witness:
  "do custom_env = \<lparr>written = [], reconciled = 0, returned = Failed (UnknownScope ''Custom'')\<rparr> \<and>
   main custom_env = \<lparr>printed = Some (UnknownScope ''Custom''), status = 1\<rparr> \<and>
   status (main custom_env) \<noteq> 0"
proof -
  let ?custom = "\<lparr>Scope = Some ''Custom'', ec2_ReservedInstances.InstanceType = Some ''m3.medium'',
          InstanceCount = Some 1, ec2_ReservedInstances.AvailabilityZone = None\<rparr>"
  let ?region = "\<lparr>Scope = Some ''Region'', ec2_ReservedInstances.InstanceType = Some ''m3.medium'',
          InstanceCount = Some 2, ec2_ReservedInstances.AvailabilityZone = None\<rparr>"
  let ?resp = "[\<lparr>Instances =
        [\<lparr>ec2_Instance.InstanceType = Some ''m3.medium'',
          Placement = Some \<lparr>ec2_Placement.AvailabilityZone = Some ''us-east-1a''\<rparr>\<rparr>]\<rparr>]"
  have ris: "describeReservedInstances custom_env = Inr [?region, ?custom]"
    by (simp add: custom_env_def)
  have bad: "?custom \<in> set [?region, ?custom]" "\<not> known_scope ?custom"
    by (simp_all add: known_scope_def)
  have pre: "newSession custom_env = None \<and> describeInstances custom_env = Inr ?resp \<and>
     (\<forall>a\<in>set ?resp. \<forall>i\<in>set (Instances a). populated_instance i) \<and>
     (\<forall>a\<in>set [?region, ?custom]. populated_reserved a)"
    by (simp add: custom_env_def populated_instance_def populated_reserved_def)
  have f: "find (\<lambda>a. \<not> known_scope a) [?region, ?custom] = Some ?custom"
    by (simp add: known_scope_def)
  from unknown_scope_aborts[OF ris bad, of ?resp] pre f
  have "written (do custom_env) = [] \<and> reconciled (do custom_env) = 0 \<and>
        status (main custom_env) \<noteq> 0 \<and>
        returned (do custom_env) = Failed (UnknownScope ''Custom'') \<and>
        main custom_env = \<lparr>printed = Some (UnknownScope ''Custom''), status = 1\<rparr>"
    by auto
  then show ?thesis by (cases "do custom_env") simp
qed

text \<open>
  C7. Both report sequences, as they are after the two sorts, are ascending in the
  type under the bytewise lexicographic order, and the rows of any one type stand in
  the order in which the loop over the result appended them. Three deficits visited
  in the order \<open>m3.large\<close>, \<open>c5.xlarge\<close>, \<open>m3.medium\<close> come out as \<open>c5.xlarge\<close>,
  \<open>m3.large\<close>, \<open>m3.medium\<close>.
\<close>

theorem reports_sorted_stable:
  "sorted (map reportedInfo.Type (fst (sorted_reports ks res))) \<and>
   sorted (map reportedInfo.Type (snd (sorted_reports ks res))) \<and>
   filter (\<lambda>r. reportedInfo.Type r = t) (fst (sorted_reports ks res)) =
     filter (\<lambda>r. reportedInfo.Type r = t) (fst (reports ks res)) \<and>
   filter (\<lambda>r. reportedInfo.Type r = t) (snd (sorted_reports ks res)) =
     filter (\<lambda>r. reportedInfo.Type r = t) (snd (reports ks res)) \<and>
   map reportedInfo.Type (fst (sorted_reports [m3_large_1a, c5_xlarge_1a, m3_medium_1a]
     [m3_large_1a \<mapsto> - 1, c5_xlarge_1a \<mapsto> - 2, m3_medium_1a \<mapsto> - 3])) =
     [''c5.xlarge'', ''m3.large'', ''m3.medium'']"
proof -
  have "map reportedInfo.Type (fst (sorted_reports [m3_large_1a, c5_xlarge_1a, m3_medium_1a]
     [m3_large_1a \<mapsto> - 1, c5_xlarge_1a \<mapsto> - 2, m3_medium_1a \<mapsto> - 3])) =
     [''c5.xlarge'', ''m3.large'', ''m3.medium'']"
    by (simp add: sorted_reports_eq reports_eq get_def sliceStable_def by_type_def
        m3_large_1a_def c5_xlarge_1a_def m3_medium_1a_def)
  then show ?thesis
    by (simp add: sorted_reports_eq sorted_sliceStable filter_sliceStable)
qed

text \<open>
  C8 as it stands fails: the header of the first section is not the line
  \<open>On-demand instances:\<close>. With one uncovered instance the output is the line
  \<open>On-demand EC2 instances:\<close> and the row.
\<close>

theorem header_counterexample:
  "render [\<lparr>reportedInfo.Type = ''m3.medium'', AZ = ''us-east-1a'', Count = 1\<rparr>] [] =
     [''On-demand EC2 instances:'' @ [CHR 0x0A],
      ''m3.medium'' @ [CHR 0x09] @ ''1'' @ [CHR 0x09] @ ''us-east-1a'' @ [CHR 0x0A]] \<and>
   ''On-demand instances:'' @ [CHR 0x0A] \<notin>
     set (render [\<lparr>reportedInfo.Type = ''m3.medium'', AZ = ''us-east-1a'', Count = 1\<rparr>] [])"
proof -
  have "char_of (49::nat) = CHR ''1''" by code_simp
  then have "itoa 1 = ''1''" by (simp add: itoa_def)
  then show ?thesis by (simp add: render_eq line_on_demand_def)
qed

text \<open>
  C8, amended: the header of the first section is the line
  \<open>On-demand EC2 instances:\<close>. What is written is, for each section that is not
  empty, its header followed by its rows, the uncovered instances first; so each of the
  headers \<open>On-demand EC2 instances:\<close> and \<open>Unused reservations:\<close> is written
  exactly when its section is not empty.
\<close>

theorem section_headers:
  "render od un =
     (if od = [] then [] else (''On-demand EC2 instances:'' @ [CHR 0x0A]) # map line_on_demand od) @
     (if un = [] then [] else (''Unused reservations:'' @ [CHR 0x0A]) # map line_unused un) \<and>
   (''On-demand EC2 instances:'' @ [CHR 0x0A] \<in> set (render od un) \<longleftrightarrow> od \<noteq> []) \<and>
   (''Unused reservations:'' @ [CHR 0x0A] \<in> set (render od un) \<longleftrightarrow> un \<noteq> [])"
proof -
  have 1: "''On-demand EC2 instances:'' @ [CHR 0x0A] \<notin> line_on_demand ` set od"
    "''On-demand EC2 instances:'' @ [CHR 0x0A] \<notin> line_unused ` set un"
    "''Unused reservations:'' @ [CHR 0x0A] \<notin> line_on_demand ` set od"
    "''Unused reservations:'' @ [CHR 0x0A] \<notin> line_unused ` set un"
    using header_not_line by blast+
  have 2: "''On-demand EC2 instances:'' @ [CHR 0x0A] \<noteq> ''Unused reservations:'' @ [CHR 0x0A]"
    by simp
  show ?thesis
    unfolding render_eq using 1 2 by (auto simp del: append.simps)
qed

text \<open>
  C9. The call leaves the maps passed as \<^verbatim>\<open>runningInstances\<close> and
  \<^verbatim>\<open>azReservations\<close> as they were, for every input and every order of the
  loops; the map passed as \<^verbatim>\<open>regionReservations\<close> is the one it changes, as it
  does on five running instances and a pool of two.
\<close>

theorem reconcile_frame:
  "runningInstances (reconcile_state ks1 ks2 ks3 ks4 running az region) = running \<and>
   azReservations (reconcile_state ks1 ks2 ks3 ks4 running az region) = az \<and>
   regionReservations (reconcile_state [m3_medium_1a] [] [m3_medium_1a] []
     [m3_medium_1a \<mapsto> 5] Map.empty [m3_medium_region \<mapsto> 2]) = Map.empty"
proof -
  have "runningInstances (reconcile_state ks1 ks2 ks3 ks4 running az region) = running"
    by (simp add: reconcile_state_def borrowed_def covered_def seeded_def enter_def)
  moreover have "azReservations (reconcile_state ks1 ks2 ks3 ks4 running az region) = az"
    by (simp add: reconcile_state_def borrowed_def covered_def seeded_def enter_def)
  moreover have "regionReservations (reconcile_state [m3_medium_1a] [] [m3_medium_1a] []
     [m3_medium_1a \<mapsto> 5] Map.empty [m3_medium_region \<mapsto> 2]) = Map.empty"
    by (simp add: run_defs m3_medium_1a_def m3_medium_region_def)
  ultimately show ?thesis by simp
qed

text \<open>
  C10. On inputs keyed as in the data model and for every order of the loops, a key
  whose value after the zone-matching loop is not negative has that same value in the
  returned map: the surplus of a zone-scoped reservation is not given to any other key.
  A step of the borrowing loop, for a key \<open>j\<close> in any state, changes no entry of
  \<^verbatim>\<open>out\<close> but the one of \<open>j\<close> and no entry of the region-scoped map but the one
  of the type of \<open>j\<close> with the empty zone, and what it adds to the value of \<open>j\<close> is
  what it takes from that entry.
\<close>

theorem surplus_kept:
  assumes o: "orders ks1 ks2 ks3 ks4 running az region"
    and z: "zoned running az region"
    and v: "out (covered ks1 ks2 running az region) k = Some v" "0 \<le> v"
  shows "reconcile ks1 ks2 ks3 ks4 running az region k = Some v \<and>
         (i \<noteq> j \<longrightarrow> out (borrow j s) i = out s i) \<and>
         (p \<noteq> \<lparr>Type = Type j, AZ = ''''\<rparr> \<longrightarrow>
            regionReservations (borrow j s) p = regionReservations s p) \<and>
         get (out (borrow j s)) j - get (out s) j =
           get (regionReservations s) \<lparr>Type = Type j, AZ = ''''\<rparr> -
           get (regionReservations (borrow j s)) \<lparr>Type = Type j, AZ = ''''\<rparr>"
proof -
  let ?c = "covered ks1 ks2 running az region"
  from o have r1: "ranges ks1 running" and r2: "ranges ks2 az"
    and r4: "ranges ks4 (regionReservations (borrowed ks1 ks2 ks3 running az region))"
    by (simp_all add: orders_def)
  have "0 \<le> get (out ?c) k" using v by (simp add: get_def)
  then have "out (fold borrow ks3 ?c) k = out ?c k" by (rule fold_borrow_keeps) simp
  then have b: "out (borrowed ks1 ks2 ks3 running az region) k = Some v"
    using v(1) by (simp add: borrowed_def)
  have "k \<in> dom (out ?c)" using v(1) by (simp add: domI)
  then have "k \<in> dom running \<union> dom az" by (simp add: dom_out_covered[OF r1 r2])
  from zoned_result_key[OF r1 r2 r4 z this] b
  have kept: "reconcile ks1 ks2 ks3 ks4 running az region k = Some v" by simp
  show ?thesis
    using kept borrow_out_other[of i j s] borrow_region_other[of p j s] borrow_moves[of j s]
    by blast
qed

theorem surplus_kept_witness:
  "orders [m3_medium_1a, c5_large_1b] [c5_large_1b] [c5_large_1b, m3_medium_1a]
     [m3_medium_region, c5_large_region]
     [m3_medium_1a \<mapsto> 3, c5_large_1b \<mapsto> 1] [c5_large_1b \<mapsto> 4]
     [m3_medium_region \<mapsto> 5, c5_large_region \<mapsto> 2] \<and>
   zoned [m3_medium_1a \<mapsto> 3, c5_large_1b \<mapsto> 1] [c5_large_1b \<mapsto> 4]
     [m3_medium_region \<mapsto> 5, c5_large_region \<mapsto> 2] \<and>
   out (covered [m3_medium_1a, c5_large_1b] [c5_large_1b]
     [m3_medium_1a \<mapsto> 3, c5_large_1b \<mapsto> 1] [c5_large_1b \<mapsto> 4]
     [m3_medium_region \<mapsto> 5, c5_large_region \<mapsto> 2]) c5_large_1b = Some 3 \<and>
   reconcile [m3_medium_1a, c5_large_1b] [c5_large_1b] [c5_large_1b, m3_medium_1a]
     [m3_medium_region, c5_large_region]
     [m3_medium_1a \<mapsto> 3, c5_large_1b \<mapsto> 1] [c5_large_1b \<mapsto> 4]
     [m3_medium_region \<mapsto> 5, c5_large_region \<mapsto> 2] =
     [m3_medium_1a \<mapsto> - 1, c5_large_1b \<mapsto> 3, m3_medium_region \<mapsto> 3, c5_large_region \<mapsto> 2] \<and>
   c5_large_1b \<noteq> m3_medium_1a \<and>
   out (borrow m3_medium_1a (covered [m3_medium_1a, c5_large_1b] [c5_large_1b]
     [m3_medium_1a \<mapsto> 3, c5_large_1b \<mapsto> 1] [c5_large_1b \<mapsto> 4]
     [m3_medium_region \<mapsto> 5, c5_large_region \<mapsto> 2])) c5_large_1b = Some 3 \<and>
   c5_large_region \<noteq> \<lparr>Type = Type m3_medium_1a, AZ = ''''\<rparr> \<and>
   regionReservations (borrow m3_medium_1a (covered [m3_medium_1a, c5_large_1b] [c5_large_1b]
     [m3_medium_1a \<mapsto> 3, c5_large_1b \<mapsto> 1] [c5_large_1b \<mapsto> 4]
     [m3_medium_region \<mapsto> 5, c5_large_region \<mapsto> 2])) c5_large_region = Some 2 \<and>
   regionReservations (borrow m3_medium_1a (covered [m3_medium_1a, c5_large_1b] [c5_large_1b]
     [m3_medium_1a \<mapsto> 3, c5_large_1b \<mapsto> 1] [c5_large_1b \<mapsto> 4]
     [m3_medium_region \<mapsto> 5, c5_large_region \<mapsto> 2])) m3_medium_region = Some 3"
proof -
  let ?run = "[m3_medium_1a \<mapsto> 3, c5_large_1b \<mapsto> 1]" and ?az = "[c5_large_1b \<mapsto> (4::int)]"
  let ?reg = "[m3_medium_region \<mapsto> 5, c5_large_region \<mapsto> (2::int)]"
  let ?c = "covered [m3_medium_1a, c5_large_1b] [c5_large_1b] ?run ?az ?reg"
  have ne: "c5_large_1b \<noteq> m3_medium_1a"
    "c5_large_region \<noteq> \<lparr>Type = Type m3_medium_1a, AZ = ''''\<rparr>"
    by (simp_all add: m3_medium_1a_def c5_large_1b_def c5_large_region_def)
  have o: "orders [m3_medium_1a, c5_large_1b] [c5_large_1b] [c5_large_1b, m3_medium_1a]
     [m3_medium_region, c5_large_region] ?run ?az ?reg"
    by (auto simp add: orders_def ranges_def run_defs m3_medium_1a_def c5_large_1b_def
        m3_medium_region_def c5_large_region_def)
  have z: "zoned ?run ?az ?reg"
    by (simp add: zoned_def m3_medium_1a_def c5_large_1b_def m3_medium_region_def
        c5_large_region_def)
  have v: "out ?c c5_large_1b = Some 3" "(0::int) \<le> 3"
    by (simp_all add: run_defs m3_medium_1a_def c5_large_1b_def)
  have c: "regionReservations ?c = ?reg" by simp
  have res: "reconcile [m3_medium_1a, c5_large_1b] [c5_large_1b] [c5_large_1b, m3_medium_1a]
     [m3_medium_region, c5_large_region] ?run ?az ?reg =
     [m3_medium_1a \<mapsto> - 1, c5_large_1b \<mapsto> 3, m3_medium_region \<mapsto> 3, c5_large_region \<mapsto> 2]"
    by (auto simp: run_defs m3_medium_1a_def c5_large_1b_def m3_medium_region_def
        c5_large_region_def fun_eq_iff)
  have pool: "regionReservations (borrow m3_medium_1a ?c) m3_medium_region = Some 3"
    by (simp add: run_defs m3_medium_1a_def c5_large_1b_def m3_medium_region_def
        c5_large_region_def)
  have r2: "regionReservations ?c c5_large_region = Some 2"
    by (simp add: c)
  from surplus_kept[OF o z v, where i = c5_large_1b and j = m3_medium_1a and s = ?c
      and p = c5_large_region] ne
  have "out (borrow m3_medium_1a ?c) c5_large_1b = out ?c c5_large_1b"
    "regionReservations (borrow m3_medium_1a ?c) c5_large_region =
     regionReservations ?c c5_large_region"
    by blast+
  then show ?thesis using o z v(1) res ne pool r2 by simp
qed

end
